theory Spec2Isabelle
  imports Main "HOL-Library.AList" "HOL-Library.Sublist"
begin

section \<open>JavaScript values, objects and the heap\<close>

text \<open>
  The utilities of \<^verbatim>\<open>valueUtil.ts\<close> read and write nested stores of objects and arrays.
  Objects are mutable and compared by reference, so the model keeps them in a heap: a value
  is a primitive or the address of an object, and every function that allocates or assigns
  takes the heap and returns the new one.

  Scope of the value model:
  \<^item> a number is an integer other than \<^verbatim>\<open>-0\<close> (no fractions, no \<^verbatim>\<open>NaN\<close>, no infinities),
    so \<^verbatim>\<open>===\<close> on values is equality of \<open>jsval\<close>: primitives by value, objects by
    address. JavaScript has every integer up to \<open>2^53\<close> in absolute value and prints it in
    decimal digits; \<open>number_to_string\<close> is JavaScript's rendering for these integers only,
    and the statements about property keys are restricted to them;
  \<^item> an object has own properties, a prototype and a kind: ordinary object, array or
    function. Its own properties are enumerable, writable data properties kept in creation
    order, and an array has its \<^verbatim>\<open>length\<close> besides. A property that is not an own
    property is looked up along the prototype chain. Accessors, non-enumerable and
    read-only properties, frozen objects and exotic objects other than arrays are not
    modelled, with one exception: \<^verbatim>\<open>Object.prototype\<close> has its accessor \<^verbatim>\<open>__proto__\<close>;
  \<^item> the built-in prototypes are objects of the heap like any other, at the first five
    addresses: \<^verbatim>\<open>Object.prototype\<close>, \<^verbatim>\<open>Array.prototype\<close>, \<^verbatim>\<open>String.prototype\<close>,
    \<^verbatim>\<open>Number.prototype\<close> and \<^verbatim>\<open>Boolean.prototype\<close>. What they contain is not fixed:
    a statement about every heap is a statement about every environment;
  \<^item> the stores are plain (not mobx observables): \<^verbatim>\<open>isObservable\<close> is false, so
    \<^verbatim>\<open>Object.keys\<close> and lodash \<^verbatim>\<open>set\<close> are the functions used, and \<^verbatim>\<open>action\<close> is
    transparent.
\<close>

datatype jsval = VUndefined | VNull | VBool bool | VNum int | VStr string | VRef nat

datatype okind = OrdinaryObject | ArrayObject nat | FunctionObject

record jsobj =
  kind :: okind
  props :: "(string \<times> jsval) list"
  proto :: jsval

type_synonym heap = "jsobj list"

text \<open>
  \<open>NotModelled\<close> is no JavaScript error: it marks the places where the model stops, which
  are the conversion of a string or an object to an array length and the bracket syntax of
  lodash paths.
\<close>

datatype error = TypeError | RangeError | NotModelled

datatype jstype = TUndefined | TObject | TBoolean | TNumber | TString | TFunction

text \<open>A path segment is a string key or a numeric index.\<close>

datatype seg = SStr string | SNum int

definition object_prototype :: nat where
  "object_prototype = 0"

definition array_prototype :: nat where
  "array_prototype = 1"

definition string_prototype :: nat where
  "string_prototype = 2"

definition number_prototype :: nat where
  "number_prototype = 3"

definition boolean_prototype :: nat where
  "boolean_prototype = 4"

text \<open>The object literal \<^verbatim>\<open>{}\<close> and the array literal \<^verbatim>\<open>[]\<close>.\<close>

definition emptyObject :: jsobj where
  "emptyObject = \<lparr>kind = OrdinaryObject, props = [], proto = VRef object_prototype\<rparr>"

definition emptyArray :: jsobj where
  "emptyArray = \<lparr>kind = ArrayObject 0, props = [], proto = VRef array_prototype\<rparr>"

definition alloc :: "heap \<Rightarrow> jsobj \<Rightarrow> heap \<times> jsval" where
  "alloc h ob = (h @ [ob], VRef (length h))"

definition obj_at :: "heap \<Rightarrow> nat \<Rightarrow> jsobj option" where
  "obj_at h a = (if a < length h then Some (h ! a) else None)"

text \<open>Truthiness, as \<^verbatim>\<open>!x\<close> and \<^verbatim>\<open>x || y\<close> test it.\<close>

fun truthy :: "jsval \<Rightarrow> bool" where
  "truthy VUndefined = False"
| "truthy VNull = False"
| "truthy (VBool b) = b"
| "truthy (VNum n) = (n \<noteq> 0)"
| "truthy (VStr s) = (s \<noteq> [])"
| "truthy (VRef a) = True"

fun nullish :: "jsval \<Rightarrow> bool" where
  "nullish VUndefined = True"
| "nullish VNull = True"
| "nullish v = False"

fun typeof :: "heap \<Rightarrow> jsval \<Rightarrow> jstype" where
  "typeof h VUndefined = TUndefined"
| "typeof h VNull = TObject"
| "typeof h (VBool b) = TBoolean"
| "typeof h (VNum n) = TNumber"
| "typeof h (VStr s) = TString"
| "typeof h (VRef a) =
     (case obj_at h a of
        Some ob \<Rightarrow> if kind ob = FunctionObject then TFunction else TObject
      | None \<Rightarrow> TObject)"

text \<open>Decimal rendering: the property key of a numeric segment is its string.\<close>

fun digits :: "nat \<Rightarrow> string" where
  "digits n =
     (if n < 10 then [''0123456789'' ! n]
      else digits (n div 10) @ [''0123456789'' ! (n mod 10)])"

declare digits.simps [simp del]

definition number_to_string :: "int \<Rightarrow> string" where
  "number_to_string n = (if n < 0 then CHR ''-'' # digits (nat (- n)) else digits (nat n))"

fun key_of :: "seg \<Rightarrow> string" where
  "key_of (SStr s) = s"
| "key_of (SNum n) = number_to_string n"

fun is_number :: "seg \<Rightarrow> bool" where
  "is_number (SNum n) = True"
| "is_number (SStr s) = False"

fun digits_value :: "string \<Rightarrow> int" where
  "digits_value [] = 0"
| "digits_value (c # cs) =
     (of_char c - 48) * 10 ^ length cs + digits_value cs"

text \<open>
  An array index is a key that is the decimal rendering of an integer from 0 to
  \<open>2^32 - 2\<close>.
\<close>

definition array_index :: "string \<Rightarrow> nat option" where
  "array_index s =
     (if s \<noteq> [] \<and> list_all (\<lambda>c. c \<in> set ''0123456789'') s
         \<and> (s = ''0'' \<or> hd s \<noteq> CHR ''0'') \<and> digits_value s < 4294967295
      then Some (nat (digits_value s)) else None)"

text \<open>
  Own enumerable properties of a value: those of the object behind a reference, the
  characters of a primitive string, none for the other primitives. \<^verbatim>\<open>Object.keys\<close> lists
  the array indices in ascending order first, then the other keys in creation order.
\<close>

definition own_props :: "heap \<Rightarrow> jsval \<Rightarrow> (string \<times> jsval) list" where
  "own_props h v =
     (case v of
        VRef a \<Rightarrow> (case obj_at h a of Some ob \<Rightarrow> props ob | None \<Rightarrow> [])
      | VStr s \<Rightarrow> map (\<lambda>i. (digits i, VStr [s ! i])) [0..<length s]
      | _ \<Rightarrow> [])"

definition object_keys :: "heap \<Rightarrow> jsval \<Rightarrow> string list" where
  "object_keys h v =
     (let ks = map fst (own_props h v)
      in sort_key (\<lambda>k. the (array_index k)) (filter (\<lambda>k. array_index k \<noteq> None) ks)
           @ filter (\<lambda>k. array_index k = None) ks)"

text \<open>
  The own property \<open>k\<close> of a value, enumerable or not: besides the properties above, the
  \<^verbatim>\<open>length\<close> of an array and of a primitive string.
\<close>

definition own_get :: "heap \<Rightarrow> jsval \<Rightarrow> string \<Rightarrow> jsval option" where
  "own_get h v k =
     (case map_of (own_props h v) k of
        Some x \<Rightarrow> Some x
      | None \<Rightarrow>
          (case v of
             VStr s \<Rightarrow> if k = ''length'' then Some (VNum (int (length s))) else None
           | VRef a \<Rightarrow>
               (case obj_at h a of
                  Some ob \<Rightarrow>
                    (case kind ob of
                       ArrayObject n \<Rightarrow> if k = ''length'' then Some (VNum (int n)) else None
                     | _ \<Rightarrow> None)
                | None \<Rightarrow> None)
           | _ \<Rightarrow> None))"

text \<open>
  The prototype of a value that is neither null nor undefined; a primitive has the
  prototype of its wrapper object.
\<close>

definition proto_of :: "heap \<Rightarrow> jsval \<Rightarrow> jsval" where
  "proto_of h v =
     (case v of
        VRef a \<Rightarrow> (case obj_at h a of Some ob \<Rightarrow> proto ob | None \<Rightarrow> VNull)
      | VStr s \<Rightarrow> VRef string_prototype
      | VNum n \<Rightarrow> VRef number_prototype
      | VBool b \<Rightarrow> VRef boolean_prototype
      | _ \<Rightarrow> VNull)"

text \<open>
  The objects of a prototype chain, from the value \<open>p\<close> on. A chain is followed for at most
  \<open>n\<close> objects; a chain of JavaScript has no cycle, so one more than the number of objects
  of the heap is enough.
\<close>

fun protos :: "nat \<Rightarrow> heap \<Rightarrow> jsval \<Rightarrow> nat list" where
  "protos 0 h p = []"
| "protos (Suc n) h p =
     (case p of
        VRef a \<Rightarrow> (case obj_at h a of Some ob \<Rightarrow> a # protos n h (proto ob) | None \<Rightarrow> [])
      | _ \<Rightarrow> [])"

definition prototype_chain :: "heap \<Rightarrow> jsval \<Rightarrow> nat list" where
  "prototype_chain h v = protos (Suc (length h)) h (proto_of h v)"

definition inherited :: "heap \<Rightarrow> jsval \<Rightarrow> string \<Rightarrow> jsval option" where
  "inherited h v k =
     (case List.find (\<lambda>a. own_get h (VRef a) k \<noteq> None) (prototype_chain h v) of
        Some a \<Rightarrow> own_get h (VRef a) k
      | None \<Rightarrow> None)"

text \<open>
  The accessor \<^verbatim>\<open>__proto__\<close> of \<^verbatim>\<open>Object.prototype\<close> is what a value has under that key
  when no data property of that name comes first: it is there for \<^verbatim>\<open>Object.prototype\<close>
  and for every value that has \<^verbatim>\<open>Object.prototype\<close> on its chain.
\<close>

definition has_proto_accessor :: "heap \<Rightarrow> jsval \<Rightarrow> bool" where
  "has_proto_accessor h v =
     (v = VRef object_prototype \<or> object_prototype \<in> set (prototype_chain h v))"

text \<open>\<^verbatim>\<open>k in Object(v)\<close> and \<^verbatim>\<open>v[k]\<close>, on a value that is neither null nor undefined.\<close>

definition has_property :: "heap \<Rightarrow> jsval \<Rightarrow> string \<Rightarrow> bool" where
  "has_property h v k =
     (own_get h v k \<noteq> None \<or> inherited h v k \<noteq> None
      \<or> (k = ''__proto__'' \<and> has_proto_accessor h v))"

definition read :: "heap \<Rightarrow> jsval \<Rightarrow> string \<Rightarrow> jsval" where
  "read h v k =
     (case own_get h v k of
        Some x \<Rightarrow> x
      | None \<Rightarrow>
          (case inherited h v k of
             Some x \<Rightarrow> x
           | None \<Rightarrow>
               if k = ''__proto__'' \<and> has_proto_accessor h v then proto_of h v
               else VUndefined))"

text \<open>\<^verbatim>\<open>v[k]\<close> in general: reading a property of null or undefined throws.\<close>

definition get_prop :: "heap \<Rightarrow> jsval \<Rightarrow> string \<Rightarrow> error + jsval" where
  "get_prop h v k = (if nullish v then Inl TypeError else Inr (read h v k))"

text \<open>
  Writing the own property \<open>k\<close> of an object. On an array, writing an index at or beyond
  the length extends the length, and writing \<^verbatim>\<open>length\<close> converts the value to a number:
  the elements from that index on are deleted, and a value that is not an integer from 0
  to \<open>2^32 - 1\<close> is a \<^verbatim>\<open>RangeError\<close>.
\<close>

fun to_length :: "jsval \<Rightarrow> error + nat" where
  "to_length (VNum n) = (if 0 \<le> n \<and> n < 4294967296 then Inr (nat n) else Inl RangeError)"
| "to_length VUndefined = Inl RangeError"
| "to_length VNull = Inr 0"
| "to_length (VBool b) = Inr (if b then 1 else 0)"
| "to_length (VStr s) = Inl NotModelled"
| "to_length (VRef a) = Inl NotModelled"

definition write_prop :: "jsobj \<Rightarrow> string \<Rightarrow> jsval \<Rightarrow> error + jsobj" where
  "write_prop ob k x =
     (case kind ob of
        ArrayObject n \<Rightarrow>
          (if k = ''length'' then
             (case to_length x of
                Inl e \<Rightarrow> Inl e
              | Inr m \<Rightarrow>
                  Inr (ob\<lparr>kind := ArrayObject m,
                          props := filter (\<lambda>(j, y). case array_index j of
                                                      Some i \<Rightarrow> i < m | None \<Rightarrow> True)
                                     (props ob)\<rparr>))
           else
             Inr (ob\<lparr>kind := ArrayObject (case array_index k of
                                             Some i \<Rightarrow> max n (Suc i) | None \<Rightarrow> n),
                     props := AList.update k x (props ob)\<rparr>))
      | _ \<Rightarrow> Inr (ob\<lparr>props := AList.update k x (props ob)\<rparr>))"

text \<open>
  \<^verbatim>\<open>o[k] = x\<close> where \<open>o\<close> is an object. Every property of the model is a writable data
  property, so the assignment writes the own property; the code never assigns under the
  key \<^verbatim>\<open>__proto__\<close> this way (lodash defines that key as an own property, and the object
  literal of \<^verbatim>\<open>setValue\<close> has a computed key).
\<close>

definition assign :: "heap \<Rightarrow> jsval \<Rightarrow> string \<Rightarrow> jsval \<Rightarrow> error + heap" where
  "assign h v k x =
     (case v of
        VRef a \<Rightarrow>
          (if a < length h then
             (case write_prop (h ! a) k x of
                Inl e \<Rightarrow> Inl e
              | Inr ob \<Rightarrow> Inr (h[a := ob]))
           else Inr h)
      | _ \<Rightarrow> Inr h)"

section \<open>lodash \<^verbatim>\<open>set\<close>\<close>

text \<open>
  \<^verbatim>\<open>set(object, path, value)\<close> of lodash 4.17.21, with a string or number as \<^verbatim>\<open>path\<close>. A
  number, a string without a dot and a string that is a property of the object address one
  property; any other string is split at its dots into a path, whose missing levels are
  created (an array when the next key is an index, an object otherwise). The keys
  \<^verbatim>\<open>__proto__\<close>, \<^verbatim>\<open>constructor\<close> and \<^verbatim>\<open>prototype\<close> are never written. A property is not
  assigned again when the object has it with the same value. The bracket syntax of lodash
  paths (\<^verbatim>\<open>a[0]\<close>) is not modelled: a string with a bracket that may be a path is
  \<open>NotModelled\<close>.
\<close>

fun split_dots :: "string \<Rightarrow> string list" where
  "split_dots [] = [[]]"
| "split_dots (c # cs) =
     (if c = CHR ''.'' then [] # split_dots cs
      else (c # hd (split_dots cs)) # tl (split_dots cs))"

definition isKey :: "heap \<Rightarrow> seg \<Rightarrow> jsval \<Rightarrow> error + bool" where
  "isKey h path object =
     (case path of
        SNum n \<Rightarrow> Inr True
      | SStr s \<Rightarrow>
          if has_property h object s then Inr True
          else if CHR ''['' \<in> set s then Inl NotModelled
          else if CHR ''.'' \<notin> set s then Inr True
          else if CHR '']'' \<in> set s then Inl NotModelled
          else Inr False)"

definition castPath :: "heap \<Rightarrow> seg \<Rightarrow> jsval \<Rightarrow> error + string list" where
  "castPath h path object =
     (case isKey h path object of
        Inl e \<Rightarrow> Inl e
      | Inr b \<Rightarrow> Inr (if b then [key_of path] else split_dots (key_of path)))"

definition unsafe_key :: "string \<Rightarrow> bool" where
  "unsafe_key k = (k = ''__proto__'' \<or> k = ''constructor'' \<or> k = ''prototype'')"

definition isIndex :: "string \<Rightarrow> bool" where
  "isIndex s =
     (s \<noteq> [] \<and> list_all (\<lambda>c. c \<in> set ''0123456789'') s
      \<and> (s = ''0'' \<or> hd s \<noteq> CHR ''0'') \<and> digits_value s < 9007199254740991)"

fun lodash_isObject :: "jsval \<Rightarrow> bool" where
  "lodash_isObject (VRef a) = True"
| "lodash_isObject v = False"

definition assignValue :: "heap \<Rightarrow> jsval \<Rightarrow> string \<Rightarrow> jsval \<Rightarrow> error + heap" where
  "assignValue h object key v =
     (let objValue = read h object key
      in if \<not> (own_get h object key \<noteq> None \<and> objValue = v)
            \<or> (v = VUndefined \<and> \<not> has_property h object key)
         then assign h object key v
         else Inr h)"

fun baseSet_loop :: "heap \<Rightarrow> jsval \<Rightarrow> string list \<Rightarrow> jsval \<Rightarrow> error + heap" where
  "baseSet_loop h nested [] v = Inr h"
| "baseSet_loop h nested (key # rest) v =
     (if nullish nested then Inr h
      else if unsafe_key key then Inr h
      else if rest = [] then assignValue h nested key v
      else
        (let objValue = read h nested key;
             (h1, newValue) =
               (if lodash_isObject objValue then (h, objValue)
                else alloc h (if isIndex (hd rest) then emptyArray else emptyObject))
         in case assignValue h1 nested key newValue of
              Inl e \<Rightarrow> Inl e
            | Inr h2 \<Rightarrow> baseSet_loop h2 (read h2 nested key) rest v))"

definition lset :: "heap \<Rightarrow> jsval \<Rightarrow> seg \<Rightarrow> jsval \<Rightarrow> error + heap" where
  "lset h object path v =
     (if nullish object then Inr h
      else if \<not> lodash_isObject object then Inr h
      else
        (case castPath h path object of
           Inl e \<Rightarrow> Inl e
         | Inr keys \<Rightarrow> baseSet_loop h object keys v))"

section \<open>\<^verbatim>\<open>typeUtil.ts\<close>\<close>

text \<open>
  The argument of \<^verbatim>\<open>toArray\<close> is undefined, null, one item or an array of items
  (\<^verbatim>\<open>checkArray\<close> is true of arrays only).
\<close>

datatype 'a array_or_item = IsUndefined | IsNull | Item 'a | Items "'a list"

fun checkArray :: "'a array_or_item \<Rightarrow> bool" where
  "checkArray (Items xs) = True"
| "checkArray v = False"

fun toArray :: "'a array_or_item \<Rightarrow> 'a list" where
  "toArray IsUndefined = []"
| "toArray IsNull = []"
| "toArray (Items xs) = xs"
| "toArray (Item x) = [x]"

section \<open>\<^verbatim>\<open>valueUtil.ts\<close>\<close>

definition getNamePath :: "seg array_or_item \<Rightarrow> seg list" where
  "getNamePath path = toArray path"

subsection \<open>getValue\<close>

text \<open>The \<^verbatim>\<open>for\<close> loop of \<^verbatim>\<open>getValue\<close>, on the segments still to walk.\<close>

fun getValue_loop :: "heap \<Rightarrow> jsval \<Rightarrow> seg list \<Rightarrow> error + jsval" where
  "getValue_loop h current [] = Inr current"
| "getValue_loop h current (name # rest) =
     (if current = VNull \<or> current = VUndefined then Inr current
      else
        (case get_prop h current (key_of name) of
           Inl e \<Rightarrow> Inl e
         | Inr next_node \<Rightarrow> getValue_loop h next_node rest))"

definition getValue :: "heap \<Rightarrow> jsval \<Rightarrow> seg array_or_item \<Rightarrow> error + jsval" where
  "getValue h store namePath = getValue_loop h store (toArray namePath)"

subsection \<open>setValue\<close>

text \<open>
  \<^verbatim>\<open>setValue\<close> recurses on the tail of the path, which is an array, so \<^verbatim>\<open>toArray\<close> is
  the identity on every recursive call: the recursion is written on the segment list and
  \<^verbatim>\<open>setValue\<close> normalises its argument once. A container is allocated before the
  recursive call fills it, as the object literal and \<^verbatim>\<open>const clone = {}\<close> do.
\<close>

fun setValue_rec :: "heap \<Rightarrow> jsval \<Rightarrow> seg list \<Rightarrow> jsval \<Rightarrow> error + heap \<times> jsval" where
  "setValue_rec h store [] v = Inr (h, v)"
| "setValue_rec h store (headPath # tailPath) v =
     (if \<not> truthy store then
        (if is_number headPath then
           (let (h1, clone) = alloc h emptyObject
            in case setValue_rec h1 VNull tailPath v of
                 Inl e \<Rightarrow> Inl e
               | Inr (h2, r) \<Rightarrow>
                   (case assign h2 clone (key_of headPath) r of
                      Inl e \<Rightarrow> Inl e
                    | Inr h3 \<Rightarrow> Inr (h3, clone)))
         else
           (let (h1, fresh) = alloc h emptyObject
            in case setValue_rec h1 VNull tailPath v of
                 Inl e \<Rightarrow> Inl e
               | Inr (h2, r) \<Rightarrow>
                   (case assign h2 fresh (key_of headPath) r of
                      Inl e \<Rightarrow> Inl e
                    | Inr h3 \<Rightarrow> Inr (h3, fresh))))
      else if typeof h store = TObject then
        (case get_prop h store (key_of headPath) of
           Inl e \<Rightarrow> Inl e
         | Inr child \<Rightarrow>
             (case setValue_rec h child tailPath v of
                Inl e \<Rightarrow> Inl e
              | Inr (h1, r) \<Rightarrow>
                  (case lset h1 store headPath r of
                     Inl e \<Rightarrow> Inl e
                   | Inr h2 \<Rightarrow> Inr (h2, store))))
      else
        (let (h1, fresh) = alloc h emptyObject
         in case setValue_rec h1 VNull tailPath v of
              Inl e \<Rightarrow> Inl e
            | Inr (h2, r) \<Rightarrow>
                (case assign h2 fresh (key_of headPath) r of
                   Inl e \<Rightarrow> Inl e
                 | Inr h3 \<Rightarrow> Inr (h3, fresh))))"

definition setValue ::
  "heap \<Rightarrow> jsval \<Rightarrow> seg array_or_item \<Rightarrow> jsval \<Rightarrow> error + heap \<times> jsval" where
  "setValue h store namePath v = setValue_rec h store (toArray namePath) v"

subsection \<open>cloneByNamePathList\<close>

fun forEach_namePath ::
  "heap \<Rightarrow> jsval \<Rightarrow> jsval \<Rightarrow> seg list list \<Rightarrow> error + heap \<times> jsval" where
  "forEach_namePath h store newStore [] = Inr (h, newStore)"
| "forEach_namePath h store newStore (namePath # rest) =
     (case getValue h store (Items namePath) of
        Inl e \<Rightarrow> Inl e
      | Inr v \<Rightarrow>
          (case setValue h newStore (Items namePath) v of
             Inl e \<Rightarrow> Inl e
           | Inr (h', newStore') \<Rightarrow> forEach_namePath h' store newStore' rest))"

definition cloneByNamePathList ::
  "heap \<Rightarrow> jsval \<Rightarrow> seg list list \<Rightarrow> error + heap \<times> jsval" where
  "cloneByNamePathList h store namePathList =
     (let (h0, newStore) = alloc h emptyObject
      in forEach_namePath h0 store newStore namePathList)"

subsection \<open>setValues\<close>

text \<open>
  \<^verbatim>\<open>isObject\<close>: an object, not a function, whose prototype is \<^verbatim>\<open>Object.prototype\<close>.
\<close>

definition isObject :: "heap \<Rightarrow> jsval \<Rightarrow> bool" where
  "isObject h obj =
     (typeof h obj = TObject \<and> obj \<noteq> VNull \<and> proto_of h obj = VRef object_prototype)"

text \<open>
  \<^verbatim>\<open>internalSetValues\<close> recurses on objects of the heap, which may be cyclic: the first
  argument bounds the depth of nested calls, and a call beyond it is the engine's stack
  overflow (a \<^verbatim>\<open>RangeError\<close>). \<open>forEach_key\<close> is the \<^verbatim>\<open>forEach\<close> over the keys of
  \<^verbatim>\<open>values\<close>.
\<close>

fun internalSetValues :: "nat \<Rightarrow> heap \<Rightarrow> jsval \<Rightarrow> jsval \<Rightarrow> error + heap \<times> jsval"
  and forEach_key :: "nat \<Rightarrow> heap \<Rightarrow> jsval \<Rightarrow> jsval \<Rightarrow> string list \<Rightarrow> error + heap"
where
  "internalSetValues 0 h store vals = Inl RangeError"
| "internalSetValues (Suc depth) h store vals =
     (if \<not> truthy vals then Inr (h, store)
      else
        (case forEach_key depth h store vals (object_keys h vals) of
           Inl e \<Rightarrow> Inl e
         | Inr h' \<Rightarrow> Inr (h', store)))"
| "forEach_key depth h store vals [] = Inr h"
| "forEach_key depth h store vals (key # keys) =
     (case get_prop h store key of
        Inl e \<Rightarrow> Inl e
      | Inr prevValue \<Rightarrow>
          (case get_prop h vals key of
             Inl e \<Rightarrow> Inl e
           | Inr v \<Rightarrow>
               (if isObject h prevValue \<and> isObject h v then
                  (let (h1, arg) = (if truthy v then (h, v) else alloc h emptyObject)
                   in case internalSetValues depth h1 prevValue arg of
                        Inl e \<Rightarrow> Inl e
                      | Inr (h2, merged) \<Rightarrow>
                          (case lset h2 store (SStr key) merged of
                             Inl e \<Rightarrow> Inl e
                           | Inr h3 \<Rightarrow> forEach_key depth h3 store vals keys))
                else
                  (case lset h store (SStr key) v of
                     Inl e \<Rightarrow> Inl e
                   | Inr h3 \<Rightarrow> forEach_key depth h3 store vals keys))))"

fun setValues :: "nat \<Rightarrow> heap \<Rightarrow> jsval \<Rightarrow> jsval list \<Rightarrow> error + heap \<times> jsval" where
  "setValues depth h store [] = Inr (h, store)"
| "setValues depth h store (newStore # restValues) =
     (case internalSetValues depth h store newStore of
        Inl e \<Rightarrow> Inl e
      | Inr (h', current) \<Rightarrow> setValues depth h' current restValues)"

subsection \<open>matchNamePath\<close>

text \<open>\<^verbatim>\<open>===\<close> on two segments: a string never equals a number.\<close>

fun seg_strict_eq :: "seg \<Rightarrow> seg \<Rightarrow> bool" where
  "seg_strict_eq (SStr a) (SStr b) = (a = b)"
| "seg_strict_eq (SNum a) (SNum b) = (a = b)"
| "seg_strict_eq a b = False"

text \<open>A path argument that may be null or undefined is \<open>None\<close>; an array is truthy.\<close>

definition matchNamePath :: "seg list option \<Rightarrow> seg list option \<Rightarrow> bool" where
  "matchNamePath namePath changedNamePath =
     (case (namePath, changedNamePath) of
        (Some np, Some cp) \<Rightarrow>
          (if length np \<noteq> length cp then False
           else list_all (\<lambda>(i, nameUnit). seg_strict_eq (cp ! i) nameUnit) (enumerate 0 np))
      | _ \<Rightarrow> False)"

definition containsNamePath :: "seg list option list option \<Rightarrow> seg list option \<Rightarrow> bool" where
  "containsNamePath namePathList namePath =
     (case namePathList of
        None \<Rightarrow> False
      | Some l \<Rightarrow> list_ex (\<lambda>path. matchNamePath path namePath) l)"

subsection \<open>isSimilar\<close>

text \<open>The elements of \<^verbatim>\<open>new Set(xs)\<close>, in insertion order.\<close>

definition set_elements :: "'a list \<Rightarrow> 'a list" where
  "set_elements xs = rev (remdups (rev xs))"

definition isSimilar :: "heap \<Rightarrow> jsval \<Rightarrow> jsval \<Rightarrow> bool" where
  "isSimilar h source target =
     (if source = target then True
      else if (\<not> truthy source \<and> truthy target) \<or> (truthy source \<and> \<not> truthy target) then False
      else if \<not> truthy source \<or> \<not> truthy target
              \<or> typeof h source \<noteq> TObject \<or> typeof h target \<noteq> TObject then False
      else
        (let sourceKeys = object_keys h source;
             targetKeys = object_keys h target;
             keys = set_elements (sourceKeys @ targetKeys)
         in list_all
              (\<lambda>key.
                 (let sourceValue = read h source key;
                      targetValue = read h target key
                  in if typeof h sourceValue = TFunction \<and> typeof h targetValue = TFunction
                     then True
                     else sourceValue = targetValue))
              keys))"

subsection \<open>move\<close>

text \<open>
  \<^verbatim>\<open>array.slice(start, end)\<close> for integer arguments: a negative argument counts from
  the end, and both are clamped to the array.
\<close>

definition slice :: "'a list \<Rightarrow> int \<Rightarrow> int \<Rightarrow> 'a list" where
  "slice xs start stop =
     (let len = int (length xs);
          k = (if start < 0 then max (len + start) 0 else min start len);
          final = (if stop < 0 then max (len + stop) 0 else min stop len)
      in take (nat (final - k)) (drop (nat k) xs))"

definition move :: "'a list \<Rightarrow> int \<Rightarrow> int \<Rightarrow> 'a list" where
  "move array moveIndex toIndex =
     (let len = int (length array) in
      if moveIndex < 0 \<or> moveIndex \<ge> len \<or> toIndex < 0 \<or> toIndex \<ge> len then array
      else
        (let item = array ! nat moveIndex;
             diff = moveIndex - toIndex
         in if diff > 0 then
              slice array 0 toIndex @ [item] @ slice array toIndex moveIndex
                @ slice array (moveIndex + 1) len
            else if diff < 0 then
              slice array 0 moveIndex @ slice array (moveIndex + 1) (toIndex + 1) @ [item]
                @ slice array (toIndex + 1) len
            else array))"

section \<open>Notions used in the statements\<close>

text \<open>
  A small environment for the examples: the five built-in prototypes, of which
  \<^verbatim>\<open>Object.prototype\<close> has the method \<^verbatim>\<open>toString\<close>, then \<^verbatim>\<open>Function.prototype\<close> and that
  method. The objects of an example come after these seven.
\<close>

definition example_realm :: heap where
  "example_realm =
     [\<lparr>kind = OrdinaryObject, props = [(''toString'', VRef 6)], proto = VNull\<rparr>,
      \<lparr>kind = ArrayObject 0, props = [], proto = VRef 0\<rparr>,
      \<lparr>kind = OrdinaryObject, props = [], proto = VRef 0\<rparr>,
      \<lparr>kind = OrdinaryObject, props = [], proto = VRef 0\<rparr>,
      \<lparr>kind = OrdinaryObject, props = [], proto = VRef 0\<rparr>,
      \<lparr>kind = FunctionObject, props = [], proto = VRef 0\<rparr>,
      \<lparr>kind = FunctionObject, props = [], proto = VRef 5\<rparr>]"

text \<open>
  The objects \<^verbatim>\<open>setValue\<close> builds for a path when nothing is there yet: one object per
  segment, each with the single key of its segment, the last one holding the value.
\<close>

fun nested_singletons :: "nat \<Rightarrow> seg list \<Rightarrow> jsval \<Rightarrow> jsobj list" where
  "nested_singletons a [] v = []"
| "nested_singletons a (k # ks) v =
     \<lparr>kind = OrdinaryObject, props = [(key_of k, if ks = [] then v else VRef (Suc a))],
      proto = VRef object_prototype\<rparr>
       # nested_singletons (Suc a) ks v"


text \<open>
  A segment that lodash \<^verbatim>\<open>set\<close> writes as one own property, under the key that reads it
  back: an integer that JavaScript prints in digits, or a string without \<^verbatim>\<open>.\<close> and \<^verbatim>\<open>[\<close>
  other than \<^verbatim>\<open>__proto__\<close>, \<^verbatim>\<open>constructor\<close> and \<^verbatim>\<open>prototype\<close>.
\<close>

fun ordinary_seg :: "seg \<Rightarrow> bool" where
  "ordinary_seg (SNum n) = (- 9007199254740992 < n \<and> n < 9007199254740992)"
| "ordinary_seg (SStr s) = (CHR ''.'' \<notin> set s \<and> CHR ''['' \<notin> set s \<and> \<not> unsafe_key s)"


text \<open>
  The heap after the own property \<open>k\<close> of the ordinary object at \<open>a\<close> has been written.
\<close>

definition put :: "heap \<Rightarrow> nat \<Rightarrow> string \<Rightarrow> jsval \<Rightarrow> heap" where
  "put h a k x =
     (if a < length h then h[a := (h ! a)\<lparr>props := AList.update k x (props (h ! a))\<rparr>]
      else h)"

text \<open>
  A well-formed heap: it has the five built-in prototypes, every reference stored in a
  property or as a prototype is the address of an object of the heap, and every prototype
  chain ends. A value is valid when it is not a dangling reference.
\<close>

definition valid_val :: "nat \<Rightarrow> jsval \<Rightarrow> bool" where
  "valid_val n x = (case x of VRef b \<Rightarrow> b < n | _ \<Rightarrow> True)"

definition wf_heap :: "heap \<Rightarrow> bool" where
  "wf_heap h =
     (boolean_prototype < length h
      \<and> list_all (\<lambda>ob. valid_val (length h) (proto ob)
                    \<and> list_all (\<lambda>(k, x). valid_val (length h) x) (props ob)) h
      \<and> list_all (\<lambda>a. length (protos (Suc (length h)) h (VRef a)) \<le> length h)
          [0..<length h])"

text \<open>
  An environment in which \<^verbatim>\<open>Object.prototype\<close> is an ordinary object with no prototype
  that holds functions and primitives only, as the standard one does.
\<close>

definition plain_realm :: "heap \<Rightarrow> bool" where
  "plain_realm h =
     (case obj_at h object_prototype of
        Some ob \<Rightarrow>
          kind ob = OrdinaryObject \<and> proto ob = VNull
          \<and> list_all (\<lambda>(k, x). \<not> (truthy x \<and> typeof h x = TObject)) (props ob)
      | None \<Rightarrow> False)"

text \<open>
  The key paths of a value: \<open>has_path h v ks\<close> holds when each key of \<open>ks\<close> in turn is an own
  key of the value reached so far.
\<close>

fun has_path :: "heap \<Rightarrow> jsval \<Rightarrow> string list \<Rightarrow> bool" where
  "has_path h v [] = True"
| "has_path h v (k # ks) = (k \<in> set (object_keys h v) \<and> has_path h (read h v k) ks)"

text \<open>
  The shape of the store \<^verbatim>\<open>cloneByNamePathList\<close> has built after some of the paths: a trie.
  \<open>K\<close> is the set of key paths written so far and \<open>N\<close> gives the address of the object at
  each proper prefix of a written path; the object at \<open>u\<close> is an ordinary object with
  prototype \<^verbatim>\<open>Object.prototype\<close> and exactly one property for each key \<open>k\<close> with \<open>u @ [k]\<close>
  written or a proper prefix of a written path, holding the value \<open>val (u @ [k])\<close> or the
  reference to the object at \<open>u @ [k]\<close>. All these objects are at addresses from \<open>n0\<close> on,
  and no written path extends another one.
\<close>

definition trie_inv ::
  "nat \<Rightarrow> (string list \<Rightarrow> jsval) \<Rightarrow> heap \<Rightarrow> (string list \<Rightarrow> nat option) \<Rightarrow> string list set \<Rightarrow> bool"
where
  "trie_inv n0 val H N K =
     (N [] = Some n0
      \<and> (\<forall>u a. N u = Some a \<longrightarrow>
            n0 \<le> a \<and> a < length H
            \<and> kind (H ! a) = OrdinaryObject \<and> proto (H ! a) = VRef object_prototype
            \<and> (\<forall>k. map_of (props (H ! a)) k =
                  (if u @ [k] \<in> K then Some (val (u @ [k]))
                   else map_option VRef (N (u @ [k])))))
      \<and> inj_on N (dom N)
      \<and> dom N = insert [] {u. \<exists>w\<in>K. strict_prefix u w}
      \<and> (\<forall>w\<in>K. \<forall>w'\<in>K. prefix w w' \<longrightarrow> w = w')
      \<and> [] \<notin> K)"

section \<open>Reading a store\<close>

lemma getValue_loop_nullish:
  "nullish n \<Longrightarrow> getValue_loop h n p = Inr n"
  by (cases p; cases n) simp_all

lemma getValue_loop_total: "\<exists>v. getValue_loop h current p = Inr v"
proof (induction p arbitrary: current)
  case Nil
  show ?case by simp
next
  case (Cons name rest)
  show ?case
  proof (cases "nullish current")
    case True
    then show ?thesis using getValue_loop_nullish [of current h "name # rest"] by blast
  next
    case False
    then have "current \<noteq> VNull" "current \<noteq> VUndefined" by auto
    then show ?thesis using False Cons.IH by (simp add: get_prop_def)
  qed
qed

lemma getValue_loop_append:
  "getValue_loop h store (p @ q) =
     (case getValue_loop h store p of Inl e \<Rightarrow> Inl e | Inr n \<Rightarrow> getValue_loop h n q)"
proof (induction p arbitrary: store)
  case Nil
  show ?case by simp
next
  case (Cons name rest)
  show ?case
  proof (cases "nullish store")
    case True
    then show ?thesis
      using getValue_loop_nullish [of store h "(name # rest) @ q"]
        getValue_loop_nullish [of store h "name # rest"]
        getValue_loop_nullish [of store h q]
      by simp
  next
    case False
    then have "store \<noteq> VNull" "store \<noteq> VUndefined" by auto
    then show ?thesis using False Cons.IH by (simp add: get_prop_def)
  qed
qed

text \<open>
  Claim C4. \<^verbatim>\<open>getValue\<close> always returns a value (the model has no accessor that could
  throw). It returns the store itself when the store is null or undefined, and when the
  node reached after part of the path (\<open>walked\<close>) is null or undefined, it returns that
  node whatever segments remain. The walk is one segment at a time: with no segment left
  the result is the current node, and from a node that is neither null nor undefined the
  result is that of the remaining segments from the property of the node named by the
  first segment. A bare segment is the path of that one segment.
\<close>

theorem getValue_short_circuit:
  "(\<exists>v. getValue h store namePath = Inr v)
   \<and> (nullish store \<longrightarrow> getValue h store namePath = Inr store)
   \<and> (toArray namePath = walked @ remaining \<and> getValue_loop h store walked = Inr n \<and> nullish n
        \<longrightarrow> getValue h store namePath = Inr n)
   \<and> getValue h store (Items []) = Inr store
   \<and> (\<not> nullish store \<longrightarrow>
        getValue h store (Items (name # rest))
          = getValue h (read h store (key_of name)) (Items rest))
   \<and> getValue h store (Item name) = getValue h store (Items [name])"
proof -
  have a: "\<exists>v. getValue h store namePath = Inr v"
    using getValue_loop_total [of h store "toArray namePath"] by (simp add: getValue_def)
  have b: "nullish store \<longrightarrow> getValue h store namePath = Inr store"
    using getValue_loop_nullish [of store h "toArray namePath"] by (simp add: getValue_def)
  have c: "toArray namePath = walked @ remaining \<and> getValue_loop h store walked = Inr n
        \<and> nullish n \<longrightarrow> getValue h store namePath = Inr n"
    using getValue_loop_nullish [of n h remaining]
    by (auto simp add: getValue_def getValue_loop_append)
  have d: "getValue h store (Items []) = Inr store" by (simp add: getValue_def)
  have e: "\<not> nullish store \<longrightarrow>
        getValue h store (Items (name # rest))
          = getValue h (read h store (key_of name)) (Items rest)"
    by (cases store) (simp_all add: getValue_def get_prop_def)
  have f: "getValue h store (Item name) = getValue h store (Items [name])"
    by (simp add: getValue_def)
  show ?thesis by (intro conjI) (rule a, rule b, rule c, rule d, rule e, rule f)
qed

theorem getValue_short_circuit_witness:
  "toArray (Items [SStr ''a'', SStr ''b'', SNum 0]) = [SStr ''a''] @ [SStr ''b'', SNum 0]
   \<and> getValue_loop
        (example_realm @ [\<lparr>kind = OrdinaryObject, props = [(''a'', VUndefined)], proto = VRef 0\<rparr>])
        (VRef 7) [SStr ''a''] = Inr VUndefined
   \<and> nullish VUndefined
   \<and> \<not> nullish (VRef 7)
   \<and> read (example_realm @ [\<lparr>kind = OrdinaryObject, props = [(''a'', VUndefined)], proto = VRef 0\<rparr>])
        (VRef 7) ''a'' = VUndefined
   \<and> getValue
        (example_realm @ [\<lparr>kind = OrdinaryObject, props = [(''a'', VUndefined)], proto = VRef 0\<rparr>])
        (VRef 7) (Items [SStr ''a'', SStr ''b'', SNum 0]) = Inr VUndefined"
proof -
  let ?h = "example_realm @ [\<lparr>kind = OrdinaryObject, props = [(''a'', VUndefined)], proto = VRef 0\<rparr>]"
  have w: "getValue_loop ?h (VRef 7) [SStr ''a''] = Inr VUndefined" by code_simp
  have r: "read ?h (VRef 7) ''a'' = VUndefined" by code_simp
  note t = getValue_short_circuit [of ?h "VRef 7" "Items [SStr ''a'', SStr ''b'', SNum 0]"
      "[SStr ''a'']" "[SStr ''b'', SNum 0]" VUndefined "SStr ''a''" "[SStr ''b'', SNum 0]"]
  have g: "getValue ?h (VRef 7) (Items [SStr ''a'', SStr ''b'', SNum 0]) = Inr VUndefined"
    using t w by simp
  show ?thesis using w r g by simp
qed

text \<open>
  Claim C9. With an empty path, and with a null or undefined path (which \<^verbatim>\<open>toArray\<close>
  turns into the empty path), \<^verbatim>\<open>getValue\<close> returns the store itself, whatever value the
  store is.
\<close>

theorem getValue_empty_path:
  "getValue h s (Items []) = Inr s \<and> getValue h s IsNull = Inr s
   \<and> getValue h s IsUndefined = Inr s"
  by (simp add: getValue_def)

section \<open>Matching paths\<close>

lemma list_all_enumerate:
  "list_all (\<lambda>(i, x). P i x) (enumerate n xs) = (\<forall>i<length xs. P (n + i) (xs ! i))"
proof (induction xs arbitrary: n)
  case Nil
  show ?case by simp
next
  case (Cons x xs)
  have "(\<forall>i<Suc (length xs). P (n + i) ((x # xs) ! i))
        = (P n x \<and> (\<forall>i<length xs. P (Suc n + i) (xs ! i)))"
    by (auto simp add: less_Suc_eq_0_disj)
  then show ?case using Cons.IH [of "Suc n"] by simp
qed

text \<open>
  Claim C7. \<^verbatim>\<open>matchNamePath\<close> is false when either path is null or undefined and when
  the lengths differ; for paths of the same length it is true exactly when the segments at
  every index are strictly equal. The three examples of the claim follow: a numeric \<open>0\<close>
  does not match the string \<open>''0''\<close>.
\<close>

theorem matchNamePath_spec:
  "matchNamePath None cp = False
   \<and> matchNamePath np None = False
   \<and> (length p \<noteq> length q \<longrightarrow> matchNamePath (Some p) (Some q) = False)
   \<and> (length p = length q \<longrightarrow>
        matchNamePath (Some p) (Some q) = (\<forall>i<length p. seg_strict_eq (q ! i) (p ! i)))
   \<and> matchNamePath (Some [SStr ''a'', SNum 0]) (Some [SStr ''a'', SNum 0]) = True
   \<and> matchNamePath (Some [SStr ''a'', SNum 0]) (Some [SStr ''a'', SStr ''0'']) = False
   \<and> matchNamePath (Some [SStr ''a'']) (Some [SStr ''a'', SStr ''b'']) = False"
  by (cases np) (simp_all add: matchNamePath_def list_all_enumerate)

theorem matchNamePath_spec_witness:
  "length [SStr ''a'', SStr ''b''] \<noteq> length [SStr ''a'']
   \<and> matchNamePath (Some [SStr ''a'', SStr ''b'']) (Some [SStr ''a'']) = False
   \<and> length [SNum 1, SStr ''x''] = length [SNum 1, SStr ''x'']
   \<and> matchNamePath (Some [SNum 1, SStr ''x'']) (Some [SNum 1, SStr ''x''])"
  using matchNamePath_spec [of "Some [SStr ''a'']" "Some [SStr ''a'']"
      "[SStr ''a'', SStr ''b'']" "[SStr ''a'']"]
    matchNamePath_spec [of "Some [SStr ''a'']" "Some [SStr ''a'']"
      "[SNum 1, SStr ''x'']" "[SNum 1, SStr ''x'']"]
  by (simp add: matchNamePath_def)

section \<open>Moving an array element\<close>

lemma slice_in_range:
  "0 \<le> a \<Longrightarrow> a \<le> b \<Longrightarrow> b \<le> int (length xs) \<Longrightarrow>
   slice xs a b = take (nat b - nat a) (drop (nat a) xs)"
  by (simp add: slice_def Let_def min_def nat_diff_distrib)

lemma move_left:
  assumes "t < f" "f < length xs"
  shows "move xs (int f) (int t) =
    take t xs @ [xs ! f] @ take (f - t) (drop t xs) @ drop (Suc f) xs"
  using assms
  by (simp add: move_def Let_def slice_in_range nat_add_distrib)

lemma move_right:
  assumes "f < t" "t < length xs"
  shows "move xs (int f) (int t) =
    take f xs @ take (t - f) (drop (Suc f) xs) @ [xs ! f] @ drop (Suc t) xs"
  using assms
  by (simp add: move_def Let_def slice_in_range nat_add_distrib)

lemma move_same: "move xs i i = xs"
  by (simp add: move_def Let_def)

lemma move_out_of_range:
  "f < 0 \<or> int (length xs) \<le> f \<or> t < 0 \<or> int (length xs) \<le> t \<Longrightarrow> move xs f t = xs"
  by (auto simp add: move_def Let_def)

lemma move_length:
  assumes "f < length xs" "t < length xs"
  shows "length (move xs (int f) (int t)) = length xs"
proof -
  consider "t < f" | "f < t" | "f = t" by linarith
  then show ?thesis
  proof cases
    case 1
    then show ?thesis using assms by (simp add: move_left)
  next
    case 2
    then show ?thesis using assms by (simp add: move_right)
  next
    case 3
    then show ?thesis by (simp add: move_same)
  qed
qed

lemma move_nth:
  assumes "f < length xs" "t < length xs" "i < length xs"
  shows "move xs (int f) (int t) ! i =
     (if i = t then xs ! f
      else if f \<le> i \<and> i < t then xs ! Suc i
      else if t < i \<and> i \<le> f then xs ! (i - 1)
      else xs ! i)"
proof -
  consider "t < f" | "f < t" | "f = t" by linarith
  then show ?thesis
  proof cases
    case 1
    then show ?thesis using assms
      by (auto simp add: move_left nth_append min_def nth_Cons')
  next
    case 2
    then show ?thesis using assms
      by (auto simp add: move_right nth_append min_def nth_Cons' Suc_diff_Suc)
  next
    case 3
    then show ?thesis using assms by (simp add: move_same)
  qed
qed

text \<open>
  Claim C6. \<^verbatim>\<open>move\<close> returns the array itself when an index is negative or not below
  the length, and when the two indices are equal. For indices \<open>f\<close> and \<open>t\<close> in range the
  result has the same length, holds the element of index \<open>f\<close> at index \<open>t\<close>, holds the
  elements between the two indices shifted by one place towards \<open>f\<close>, and agrees with the
  array everywhere else. The input is a value of the model and is not changed by the call.
  \<^verbatim>\<open>move([1,2,3,4], 1, 3)\<close> is \<^verbatim>\<open>[1,3,4,2]\<close> and \<^verbatim>\<open>move([1,2,3], -1, 0)\<close> is
  \<^verbatim>\<open>[1,2,3]\<close>.
\<close>

theorem move_spec:
  "(moveIndex < 0 \<or> int (length xs) \<le> moveIndex \<or> toIndex < 0 \<or> int (length xs) \<le> toIndex
      \<or> moveIndex = toIndex \<longrightarrow> move xs moveIndex toIndex = xs)
   \<and> (f < length xs \<and> t < length xs \<longrightarrow>
        length (move xs (int f) (int t)) = length xs
        \<and> move xs (int f) (int t) ! t = xs ! f
        \<and> (\<forall>i<length xs.
              move xs (int f) (int t) ! i =
                (if i = t then xs ! f
                 else if f \<le> i \<and> i < t then xs ! Suc i
                 else if t < i \<and> i \<le> f then xs ! (i - 1)
                 else xs ! i)))
   \<and> move [1, 2, 3, 4 :: int] 1 3 = [1, 3, 4, 2]
   \<and> move [1, 2, 3 :: int] (- 1) 0 = [1, 2, 3]"
proof -
  have a: "moveIndex < 0 \<or> int (length xs) \<le> moveIndex \<or> toIndex < 0
      \<or> int (length xs) \<le> toIndex \<or> moveIndex = toIndex \<longrightarrow> move xs moveIndex toIndex = xs"
    using move_out_of_range [of moveIndex xs toIndex] move_same [of xs toIndex] by blast
  have b: "f < length xs \<and> t < length xs \<longrightarrow>
        length (move xs (int f) (int t)) = length xs
        \<and> move xs (int f) (int t) ! t = xs ! f
        \<and> (\<forall>i<length xs.
              move xs (int f) (int t) ! i =
                (if i = t then xs ! f
                 else if f \<le> i \<and> i < t then xs ! Suc i
                 else if t < i \<and> i \<le> f then xs ! (i - 1)
                 else xs ! i))"
    using move_length [of f xs t] move_nth [of f xs t] by simp
  have c: "move [1, 2, 3, 4 :: int] 1 3 = [1, 3, 4, 2]"
    by (simp add: move_def slice_def)
  have d: "move [1, 2, 3 :: int] (- 1) 0 = [1, 2, 3]"
    by (simp add: move_def)
  from a b c d show ?thesis by blast
qed

theorem move_spec_witness:
  "(2 :: nat) < length [10, 20, 30, 40 :: int] \<and> (0 :: nat) < length [10, 20, 30, 40 :: int]
   \<and> move [10, 20, 30, 40 :: int] 2 0 = [30, 10, 20, 40]
   \<and> move [10, 20, 30, 40 :: int] 2 0 ! 0 = [10, 20, 30, 40] ! 2
   \<and> move [10, 20, 30, 40 :: int] 4 0 = [10, 20, 30, 40]"
  using move_spec [of 4 "[10, 20, 30, 40 :: int]" 0 2 0]
  by (simp add: move_def slice_def)

section \<open>Similarity of two values\<close>

lemma set_set_elements: "set (set_elements xs) = set xs"
  by (simp add: set_elements_def)

text \<open>
  Claim C8. For two different objects (two addresses whose \<^verbatim>\<open>typeof\<close> is
  \<^verbatim>\<open>object\<close>), \<^verbatim>\<open>isSimilar\<close> is true exactly when, for every own key of either object,
  the two values under that key, own or inherited, are both functions or are strictly
  equal. Values that are objects are strictly equal only when they are the same address. So
  two objects whose \<^verbatim>\<open>f\<close> holds different functions are similar, \<^verbatim>\<open>{x: 1}\<close> and
  \<^verbatim>\<open>{x: 2}\<close> are not, and two objects whose \<^verbatim>\<open>o\<close> holds different (even if
  equal-looking) objects are not. The empty object and \<^verbatim>\<open>{toString: f}\<close> are similar,
  since the empty object inherits a function under that key.
\<close>

theorem isSimilar_objects:
  "(a \<noteq> b \<and> typeof h (VRef a) = TObject \<and> typeof h (VRef b) = TObject \<longrightarrow>
      isSimilar h (VRef a) (VRef b) =
        (\<forall>key \<in> set (object_keys h (VRef a)) \<union> set (object_keys h (VRef b)).
           (typeof h (read h (VRef a) key) = TFunction
              \<and> typeof h (read h (VRef b) key) = TFunction)
           \<or> read h (VRef a) key = read h (VRef b) key))
   \<and> isSimilar
        (example_realm @
         [\<lparr>kind = OrdinaryObject, props = [(''f'', VRef 9)], proto = VRef 0\<rparr>,
          \<lparr>kind = OrdinaryObject, props = [(''f'', VRef 10)], proto = VRef 0\<rparr>,
          \<lparr>kind = FunctionObject, props = [], proto = VRef 5\<rparr>,
          \<lparr>kind = FunctionObject, props = [], proto = VRef 5\<rparr>])
        (VRef 7) (VRef 8) = True
   \<and> isSimilar
        (example_realm @
         [\<lparr>kind = OrdinaryObject, props = [(''x'', VNum 1)], proto = VRef 0\<rparr>,
          \<lparr>kind = OrdinaryObject, props = [(''x'', VNum 2)], proto = VRef 0\<rparr>])
        (VRef 7) (VRef 8) = False
   \<and> isSimilar
        (example_realm @
         [\<lparr>kind = OrdinaryObject, props = [(''o'', VRef 9)], proto = VRef 0\<rparr>,
          \<lparr>kind = OrdinaryObject, props = [(''o'', VRef 10)], proto = VRef 0\<rparr>,
          \<lparr>kind = OrdinaryObject, props = [], proto = VRef 0\<rparr>,
          \<lparr>kind = OrdinaryObject, props = [], proto = VRef 0\<rparr>])
        (VRef 7) (VRef 8) = False
   \<and> isSimilar
        (example_realm @
         [\<lparr>kind = OrdinaryObject, props = [(''o'', VRef 9)], proto = VRef 0\<rparr>,
          \<lparr>kind = OrdinaryObject, props = [(''o'', VRef 9)], proto = VRef 0\<rparr>,
          \<lparr>kind = OrdinaryObject, props = [], proto = VRef 0\<rparr>])
        (VRef 7) (VRef 8) = True
   \<and> isSimilar
        (example_realm @
         [\<lparr>kind = OrdinaryObject, props = [], proto = VRef 0\<rparr>,
          \<lparr>kind = OrdinaryObject, props = [(''toString'', VRef 9)], proto = VRef 0\<rparr>,
          \<lparr>kind = FunctionObject, props = [], proto = VRef 5\<rparr>])
        (VRef 7) (VRef 8) = True"
proof -
  have general: "a \<noteq> b \<and> typeof h (VRef a) = TObject \<and> typeof h (VRef b) = TObject \<longrightarrow>
      isSimilar h (VRef a) (VRef b) =
        (\<forall>key \<in> set (object_keys h (VRef a)) \<union> set (object_keys h (VRef b)).
           (typeof h (read h (VRef a) key) = TFunction
              \<and> typeof h (read h (VRef b) key) = TFunction)
           \<or> read h (VRef a) key = read h (VRef b) key)"
    by (auto simp add: isSimilar_def Let_def list_all_iff set_set_elements)
  have e1: "isSimilar
        (example_realm @
         [\<lparr>kind = OrdinaryObject, props = [(''f'', VRef 9)], proto = VRef 0\<rparr>,
          \<lparr>kind = OrdinaryObject, props = [(''f'', VRef 10)], proto = VRef 0\<rparr>,
          \<lparr>kind = FunctionObject, props = [], proto = VRef 5\<rparr>,
          \<lparr>kind = FunctionObject, props = [], proto = VRef 5\<rparr>])
        (VRef 7) (VRef 8) = True"
    by code_simp
  have e2: "isSimilar
        (example_realm @
         [\<lparr>kind = OrdinaryObject, props = [(''x'', VNum 1)], proto = VRef 0\<rparr>,
          \<lparr>kind = OrdinaryObject, props = [(''x'', VNum 2)], proto = VRef 0\<rparr>])
        (VRef 7) (VRef 8) = False"
    by code_simp
  have e3: "isSimilar
        (example_realm @
         [\<lparr>kind = OrdinaryObject, props = [(''o'', VRef 9)], proto = VRef 0\<rparr>,
          \<lparr>kind = OrdinaryObject, props = [(''o'', VRef 10)], proto = VRef 0\<rparr>,
          \<lparr>kind = OrdinaryObject, props = [], proto = VRef 0\<rparr>,
          \<lparr>kind = OrdinaryObject, props = [], proto = VRef 0\<rparr>])
        (VRef 7) (VRef 8) = False"
    by code_simp
  have e4: "isSimilar
        (example_realm @
         [\<lparr>kind = OrdinaryObject, props = [(''o'', VRef 9)], proto = VRef 0\<rparr>,
          \<lparr>kind = OrdinaryObject, props = [(''o'', VRef 9)], proto = VRef 0\<rparr>,
          \<lparr>kind = OrdinaryObject, props = [], proto = VRef 0\<rparr>])
        (VRef 7) (VRef 8) = True"
    by code_simp
  have e5: "isSimilar
        (example_realm @
         [\<lparr>kind = OrdinaryObject, props = [], proto = VRef 0\<rparr>,
          \<lparr>kind = OrdinaryObject, props = [(''toString'', VRef 9)], proto = VRef 0\<rparr>,
          \<lparr>kind = FunctionObject, props = [], proto = VRef 5\<rparr>])
        (VRef 7) (VRef 8) = True"
    by code_simp
  show ?thesis by (intro conjI) (rule general, rule e1, rule e2, rule e3, rule e4, rule e5)
qed

theorem isSimilar_objects_witness:
  "(7 :: nat) \<noteq> 8
   \<and> typeof (example_realm @
         [\<lparr>kind = OrdinaryObject, props = [(''f'', VRef 9), (''n'', VNum 1)], proto = VRef 0\<rparr>,
          \<lparr>kind = OrdinaryObject, props = [(''n'', VNum 1), (''f'', VRef 10)], proto = VRef 0\<rparr>,
          \<lparr>kind = FunctionObject, props = [], proto = VRef 5\<rparr>,
          \<lparr>kind = FunctionObject, props = [], proto = VRef 5\<rparr>])
        (VRef 7) = TObject
   \<and> typeof (example_realm @
         [\<lparr>kind = OrdinaryObject, props = [(''f'', VRef 9), (''n'', VNum 1)], proto = VRef 0\<rparr>,
          \<lparr>kind = OrdinaryObject, props = [(''n'', VNum 1), (''f'', VRef 10)], proto = VRef 0\<rparr>,
          \<lparr>kind = FunctionObject, props = [], proto = VRef 5\<rparr>,
          \<lparr>kind = FunctionObject, props = [], proto = VRef 5\<rparr>])
        (VRef 8) = TObject
   \<and> isSimilar (example_realm @
         [\<lparr>kind = OrdinaryObject, props = [(''f'', VRef 9), (''n'', VNum 1)], proto = VRef 0\<rparr>,
          \<lparr>kind = OrdinaryObject, props = [(''n'', VNum 1), (''f'', VRef 10)], proto = VRef 0\<rparr>,
          \<lparr>kind = FunctionObject, props = [], proto = VRef 5\<rparr>,
          \<lparr>kind = FunctionObject, props = [], proto = VRef 5\<rparr>])
        (VRef 7) (VRef 8)"
proof -
  let ?h = "example_realm @
         [\<lparr>kind = OrdinaryObject, props = [(''f'', VRef 9), (''n'', VNum 1)], proto = VRef 0\<rparr>,
          \<lparr>kind = OrdinaryObject, props = [(''n'', VNum 1), (''f'', VRef 10)], proto = VRef 0\<rparr>,
          \<lparr>kind = FunctionObject, props = [], proto = VRef 5\<rparr>,
          \<lparr>kind = FunctionObject, props = [], proto = VRef 5\<rparr>]"
  have t: "typeof ?h (VRef 7) = TObject" "typeof ?h (VRef 8) = TObject" by code_simp+
  have k: "set (object_keys ?h (VRef 7)) \<union> set (object_keys ?h (VRef 8)) = {''f'', ''n''}"
    by code_simp
  have r: "typeof ?h (read ?h (VRef 7) ''f'') = TFunction"
    "typeof ?h (read ?h (VRef 8) ''f'') = TFunction"
    "read ?h (VRef 7) ''n'' = read ?h (VRef 8) ''n''"
    by code_simp+
  have "isSimilar ?h (VRef 7) (VRef 8)"
    using isSimilar_objects [of 7 8 ?h] t r unfolding k by simp
  then show ?thesis using t by simp
qed

text \<open>
  Claim C10. \<^verbatim>\<open>isSimilar\<close> is symmetric: swapping its two arguments does not change
  the result, for values of every kind.
\<close>

theorem isSimilar_symmetric: "isSimilar h a b = isSimilar h b a"
proof (cases "a = b")
  case True
  then show ?thesis by simp
next
  case False
  then have "b \<noteq> a" by simp
  with False show ?thesis
    by (auto simp add: isSimilar_def Let_def list_all_iff set_set_elements)
qed

theorem isSimilar_symmetric_witness:
  "isSimilar (example_realm @
       [\<lparr>kind = OrdinaryObject, props = [(''x'', VNum 1)], proto = VRef 0\<rparr>,
        \<lparr>kind = OrdinaryObject, props = [(''x'', VNum 1), (''y'', VUndefined)],
         proto = VRef 0\<rparr>])
     (VRef 7) (VRef 8)
   \<and> isSimilar (example_realm @
       [\<lparr>kind = OrdinaryObject, props = [(''x'', VNum 1)], proto = VRef 0\<rparr>,
        \<lparr>kind = OrdinaryObject, props = [(''x'', VNum 1), (''y'', VUndefined)],
         proto = VRef 0\<rparr>])
     (VRef 8) (VRef 7)"
proof -
  let ?h = "example_realm @
       [\<lparr>kind = OrdinaryObject, props = [(''x'', VNum 1)], proto = VRef 0\<rparr>,
        \<lparr>kind = OrdinaryObject, props = [(''x'', VNum 1), (''y'', VUndefined)],
         proto = VRef 0\<rparr>]"
  have a: "isSimilar ?h (VRef 7) (VRef 8)" by code_simp
  then have "isSimilar ?h (VRef 8) (VRef 7)"
    using isSimilar_symmetric [of ?h "VRef 7" "VRef 8"] by simp
  with a show ?thesis by simp
qed


section \<open>Writing into a store\<close>

lemma assign_fresh:
  "assign ((h @ [emptyObject]) @ rest) (VRef (length h)) k r
     = Inr (h @ \<lparr>kind = OrdinaryObject, props = [(k, r)], proto = VRef object_prototype\<rparr> # rest)"
  by (simp add: assign_def write_prop_def emptyObject_def list_update_append nth_append)

lemma setValue_rec_fresh:
  assumes "\<not> truthy store \<or> typeof h store \<noteq> TObject"
  shows "setValue_rec h store p v =
     Inr (h @ nested_singletons (length h) p v, if p = [] then v else VRef (length h))"
  using assms
proof (induction p arbitrary: h store)
  case Nil
  show ?case by simp
next
  case (Cons k t)
  have rec: "setValue_rec (h @ [emptyObject]) VNull t v =
     Inr ((h @ [emptyObject]) @ nested_singletons (Suc (length h)) t v,
          if t = [] then v else VRef (Suc (length h)))"
    using Cons.IH [of VNull "h @ [emptyObject]"] by simp
  show ?case using Cons.prems
    by (auto simp add: alloc_def rec assign_fresh simp del: append_assoc)
qed

text \<open>
  Claim C1. With a null store and the path \<^verbatim>\<open>['a', 0]\<close>, \<^verbatim>\<open>setValue\<close> allocates two
  objects: the root with key \<^verbatim>\<open>a\<close>, and under it a node with key \<^verbatim>\<open>0\<close> holding the
  value. The node under \<^verbatim>\<open>a\<close> is an ordinary object with prototype
  \<^verbatim>\<open>Object.prototype\<close>, not an array: the branch for a numeric head segment assigns into
  \<^verbatim>\<open>{}\<close>.
\<close>

theorem setValue_null_numeric_segment:
  "setValue h VNull (Items [SStr ''a'', SNum 0]) v =
     Inr (h @ [\<lparr>kind = OrdinaryObject, props = [(''a'', VRef (Suc (length h)))],
                proto = VRef object_prototype\<rparr>,
               \<lparr>kind = OrdinaryObject, props = [(''0'', v)], proto = VRef object_prototype\<rparr>],
          VRef (length h))"
  using setValue_rec_fresh [of VNull h "[SStr ''a'', SNum 0]" v]
  by (simp add: setValue_def number_to_string_def digits.simps del: setValue_rec.simps)

subsection \<open>Reading back what was written\<close>

lemma digits_chars: "digits n \<noteq> [] \<and> set (digits n) \<subseteq> set ''0123456789''"
proof (induction n rule: digits.induct)
  case (1 n)
  have nth_in: "''0123456789'' ! d \<in> set ''0123456789''" if "d < 10" for d
    using that nth_mem [of d "''0123456789''"] by simp
  show ?case
  proof (cases "n < 10")
    case True
    then show ?thesis using nth_in [of n] by (subst digits.simps, subst digits.simps) simp
  next
    case False
    have "n mod 10 < 10" by simp
    then show ?thesis using False 1 nth_in [of "n mod 10"]
      by (subst digits.simps, subst digits.simps) simp
  qed
qed

lemma number_key_safe: "\<not> unsafe_key (number_to_string n)"
proof -
  have "CHR ''_'' \<notin> set (digits m)" "CHR ''c'' \<notin> set (digits m)" "CHR ''p'' \<notin> set (digits m)" for m
    using digits_chars [of m] by auto
  then have "digits m \<noteq> ''__proto__''" "digits m \<noteq> ''constructor''" "digits m \<noteq> ''prototype''" for m
    by (metis list.set_intros(1))+
  then show ?thesis by (simp add: unsafe_key_def number_to_string_def)
qed

lemma ordinary_key_safe: "ordinary_seg k \<Longrightarrow> \<not> unsafe_key (key_of k)"
  using number_key_safe by (cases k) simp_all

lemma lset_ordinary:
  assumes "ordinary_seg k"
  shows "lset h (VRef a) k x = assignValue h (VRef a) (key_of k) x"
proof (cases k)
  case (SStr s)
  then show ?thesis using assms by (simp add: lset_def castPath_def isKey_def)
next
  case (SNum n)
  then show ?thesis using number_key_safe [of n] by (simp add: lset_def castPath_def isKey_def)
qed

lemma own_get_read: "own_get h v k = Some x \<Longrightarrow> read h v k = x"
  by (simp add: read_def)






lemma length_nested_singletons: "length (nested_singletons a p v) = length p"
  by (induction p arbitrary: a) simp_all

lemma setValue_rec_object:
  assumes "truthy store" "typeof h store = TObject"
  shows "setValue_rec h store (k # t) v =
     (case setValue_rec h (read h store (key_of k)) t v of
        Inl e \<Rightarrow> Inl e
      | Inr (h1, r) \<Rightarrow>
          (case lset h1 store k r of Inl e \<Rightarrow> Inl e | Inr h2 \<Rightarrow> Inr (h2, store)))"
  using assms by (cases store) (auto simp add: get_prop_def)







text \<open>
  It fails for a key with a dot: on the empty object, lodash \<^verbatim>\<open>set\<close> reads \<^verbatim>\<open>'a.b'\<close> as
  the path \<^verbatim>\<open>a\<close>, \<^verbatim>\<open>b\<close> and builds \<^verbatim>\<open>{a: {b: 1}}\<close>, whereas \<^verbatim>\<open>getValue\<close> reads the
  property named \<^verbatim>\<open>a.b\<close>, which is undefined.
\<close>

lemma setValue_getValue_dotted_key:
  "setValue (example_realm @ [emptyObject]) (VRef 7) (Items [SStr ''a.b'']) (VNum 1)
     = Inr (example_realm @
            [\<lparr>kind = OrdinaryObject, props = [(''a'', VRef 8)], proto = VRef 0\<rparr>,
             \<lparr>kind = OrdinaryObject, props = [(''b'', VNum 1)], proto = VRef 0\<rparr>], VRef 7)
   \<and> getValue (example_realm @
            [\<lparr>kind = OrdinaryObject, props = [(''a'', VRef 8)], proto = VRef 0\<rparr>,
             \<lparr>kind = OrdinaryObject, props = [(''b'', VNum 1)], proto = VRef 0\<rparr>]) (VRef 7)
        (Items [SStr ''a.b'']) = Inr VUndefined"
  by code_simp

text \<open>
  It also fails on a store that contains itself: with \<^verbatim>\<open>s.k === s\<close>, writing 5 at
  \<^verbatim>\<open>['k', 'k']\<close> first sets \<^verbatim>\<open>s.k\<close> to 5 and then, on the way out of the recursion,
  sets \<^verbatim>\<open>s.k\<close> back to \<^verbatim>\<open>s\<close>.
\<close>

lemma setValue_getValue_cyclic_store:
  "setValue (example_realm @ [\<lparr>kind = OrdinaryObject, props = [(''k'', VRef 7)], proto = VRef 0\<rparr>])
     (VRef 7) (Items [SStr ''k'', SStr ''k'']) (VNum 5)
     = Inr (example_realm @
            [\<lparr>kind = OrdinaryObject, props = [(''k'', VRef 7)], proto = VRef 0\<rparr>], VRef 7)
   \<and> getValue (example_realm @
            [\<lparr>kind = OrdinaryObject, props = [(''k'', VRef 7)], proto = VRef 0\<rparr>]) (VRef 7)
        (Items [SStr ''k'', SStr ''k'']) = Inr (VRef 7)"
  by code_simp

section \<open>Merging a patch into a store\<close>

text \<open>
  Claim C3. The claim says that for every key of the patch the incoming value replaces the
  existing one under that key, or is merged into it. The code does not do that for a key
  with a dot: it reads the existing value under the key as it is (\<^verbatim>\<open>store[key]\<close>) but
  writes with lodash \<^verbatim>\<open>set\<close>, which takes the key for a path. Merging the patch
  \<^verbatim>\<open>{'a.b': 1}\<close> into \<^verbatim>\<open>{}\<close> gives \<^verbatim>\<open>{a: {b: 1}}\<close>: the store has no property
  \<^verbatim>\<open>'a.b'\<close>, and it has a property \<^verbatim>\<open>a\<close> that the patch does not mention.
\<close>

theorem setValues_dotted_key:
  "setValues 2
     (example_realm @
      [emptyObject, \<lparr>kind = OrdinaryObject, props = [(''a.b'', VNum 1)], proto = VRef 0\<rparr>])
     (VRef 7) [VRef 8]
     = Inr (example_realm @
            [\<lparr>kind = OrdinaryObject, props = [(''a'', VRef 9)], proto = VRef 0\<rparr>,
             \<lparr>kind = OrdinaryObject, props = [(''a.b'', VNum 1)], proto = VRef 0\<rparr>,
             \<lparr>kind = OrdinaryObject, props = [(''b'', VNum 1)], proto = VRef 0\<rparr>], VRef 7)
   \<and> read (example_realm @
            [\<lparr>kind = OrdinaryObject, props = [(''a'', VRef 9)], proto = VRef 0\<rparr>,
             \<lparr>kind = OrdinaryObject, props = [(''a.b'', VNum 1)], proto = VRef 0\<rparr>,
             \<lparr>kind = OrdinaryObject, props = [(''b'', VNum 1)], proto = VRef 0\<rparr>])
        (VRef 7) ''a.b'' = VUndefined"
  by code_simp

text \<open>
  On keys without a dot the code follows the policy of the claim; its two examples:
  \<^verbatim>\<open>setValues({a:1,b:{c:2}}, {a:4,b:{d:5}})\<close> is \<^verbatim>\<open>{a:4,b:{c:2,d:5}}\<close>, where the object
  under \<^verbatim>\<open>b\<close> is merged in place, and \<^verbatim>\<open>setValues({a:[1,2,3]}, {a:[9]})\<close> is
  \<^verbatim>\<open>{a:[9]}\<close>, where the array of the patch replaces the array of the store.
\<close>

lemma setValues_documented_example:
  "setValues 3
     (example_realm @
      [\<lparr>kind = OrdinaryObject, props = [(''a'', VNum 1), (''b'', VRef 8)], proto = VRef 0\<rparr>,
       \<lparr>kind = OrdinaryObject, props = [(''c'', VNum 2)], proto = VRef 0\<rparr>,
       \<lparr>kind = OrdinaryObject, props = [(''a'', VNum 4), (''b'', VRef 10)], proto = VRef 0\<rparr>,
       \<lparr>kind = OrdinaryObject, props = [(''d'', VNum 5)], proto = VRef 0\<rparr>])
     (VRef 7) [VRef 9]
     = Inr (example_realm @
      [\<lparr>kind = OrdinaryObject, props = [(''a'', VNum 4), (''b'', VRef 8)], proto = VRef 0\<rparr>,
       \<lparr>kind = OrdinaryObject, props = [(''c'', VNum 2), (''d'', VNum 5)], proto = VRef 0\<rparr>,
       \<lparr>kind = OrdinaryObject, props = [(''a'', VNum 4), (''b'', VRef 10)], proto = VRef 0\<rparr>,
       \<lparr>kind = OrdinaryObject, props = [(''d'', VNum 5)], proto = VRef 0\<rparr>], VRef 7)"
  by code_simp

lemma setValues_replaces_arrays:
  "setValues 3
     (example_realm @
      [\<lparr>kind = OrdinaryObject, props = [(''a'', VRef 8)], proto = VRef 0\<rparr>,
       \<lparr>kind = ArrayObject 3, props = [(''0'', VNum 1), (''1'', VNum 2), (''2'', VNum 3)],
        proto = VRef 1\<rparr>,
       \<lparr>kind = OrdinaryObject, props = [(''a'', VRef 10)], proto = VRef 0\<rparr>,
       \<lparr>kind = ArrayObject 1, props = [(''0'', VNum 9)], proto = VRef 1\<rparr>])
     (VRef 7) [VRef 9]
     = Inr (example_realm @
      [\<lparr>kind = OrdinaryObject, props = [(''a'', VRef 10)], proto = VRef 0\<rparr>,
       \<lparr>kind = ArrayObject 3, props = [(''0'', VNum 1), (''1'', VNum 2), (''2'', VNum 3)],
        proto = VRef 1\<rparr>,
       \<lparr>kind = OrdinaryObject, props = [(''a'', VRef 10)], proto = VRef 0\<rparr>,
       \<lparr>kind = ArrayObject 1, props = [(''0'', VNum 9)], proto = VRef 1\<rparr>], VRef 7)"
  by code_simp

section \<open>Cloning the values at a list of paths\<close>

subsection \<open>Reading in a heap that has grown\<close>

lemma take_facts:
  assumes "take n H = h" "n = length h"
  shows "n \<le> length H \<and> (\<forall>b<n. H ! b = h ! b)"
proof -
  have "min (length H) n = length h" using assms(1) length_take by metis
  then have "n \<le> length H" using assms(2) by simp
  moreover have "H ! b = h ! b" if "b < n" for b using assms(1) nth_take that by metis
  ultimately show ?thesis by blast
qed

lemma wf_obj:
  assumes "wf_heap h" "a < length h"
  shows "valid_val (length h) (proto (h ! a))"
    and "map_of (props (h ! a)) k = Some x \<Longrightarrow> valid_val (length h) x"
proof -
  have in_h: "h ! a \<in> set h" using assms(2) by simp
  then show "valid_val (length h) (proto (h ! a))"
    using assms(1) unfolding wf_heap_def list_all_iff by blast
  assume "map_of (props (h ! a)) k = Some x"
  then have "(k, x) \<in> set (props (h ! a))" by (rule map_of_SomeD)
  then show "valid_val (length h) x"
    using assms(1) in_h unfolding wf_heap_def list_all_iff by fastforce
qed

lemma wf_realm:
  assumes "wf_heap h"
  shows "object_prototype < length h" "array_prototype < length h" "string_prototype < length h"
    "number_prototype < length h" "boolean_prototype < length h"
proof -
  have "boolean_prototype < length h" using assms unfolding wf_heap_def by blast
  then show "object_prototype < length h" "array_prototype < length h"
    "string_prototype < length h" "number_prototype < length h" "boolean_prototype < length h"
    by (simp_all add: object_prototype_def array_prototype_def string_prototype_def
        number_prototype_def boolean_prototype_def del: length_greater_0_conv)
qed

lemma protos_null: "protos n h VNull = []"
  by (cases n) simp_all

lemma protos_extend:
  assumes "wf_heap h" "length h \<le> length H" "\<forall>b<length h. H ! b = h ! b"
  shows "valid_val (length h) p \<Longrightarrow> protos n H p = protos n h p"
proof (induction n arbitrary: p)
  case 0
  show ?case by simp
next
  case (Suc n)
  show ?case
  proof (cases p)
    case (VRef a)
    then have a: "a < length h" using Suc.prems by (simp add: valid_val_def)
    then have o: "obj_at H a = Some (h ! a)" "obj_at h a = Some (h ! a)"
      using assms(2,3) by (simp_all add: obj_at_def)
    have "protos n H (proto (h ! a)) = protos n h (proto (h ! a))"
      using Suc.IH wf_obj(1) [OF assms(1) a] by blast
    then show ?thesis using VRef o by simp
  qed simp_all
qed

lemma protos_fuel:
  "length (protos n h p) < n \<Longrightarrow> n \<le> m \<Longrightarrow> protos m h p = protos n h p"
proof (induction n arbitrary: p m)
  case 0
  then show ?case by simp
next
  case (Suc n)
  then obtain m' where m: "m = Suc m'" "n \<le> m'" by (cases m) auto
  show ?case
  proof (cases p)
    case (VRef a)
    show ?thesis
    proof (cases "obj_at h a")
      case None
      then show ?thesis using VRef m by simp
    next
      case (Some ob)
      then have "length (protos n h (proto ob)) < n" using Suc.prems(1) VRef by simp
      from Suc.IH [OF this m(2)] show ?thesis using VRef Some m(1) by simp
    qed
  qed (simp_all add: m)
qed

lemma protos_bound: "a \<in> set (protos n h p) \<Longrightarrow> a < length h"
proof (induction n arbitrary: p)
  case 0
  then show ?case by simp
next
  case (Suc n)
  then show ?case by (auto simp add: obj_at_def split: jsval.splits if_splits)
qed

lemma proto_of_valid:
  assumes "wf_heap h" "valid_val (length h) v"
  shows "valid_val (length h) (proto_of h v)"
proof (cases v)
  case (VRef a)
  then have "a < length h" using assms(2) by (simp add: valid_val_def)
  then show ?thesis using VRef wf_obj(1) [OF assms(1)] by (simp add: proto_of_def obj_at_def)
next
  case (VStr s)
  then show ?thesis using assms(1)
    by (simp add: proto_of_def valid_val_def wf_heap_def string_prototype_def boolean_prototype_def)
next
  case (VNum n)
  then show ?thesis using assms(1)
    by (simp add: proto_of_def valid_val_def wf_heap_def number_prototype_def boolean_prototype_def)
next
  case (VBool b)
  then show ?thesis using assms(1)
    by (simp add: proto_of_def valid_val_def wf_heap_def)
qed (simp_all add: proto_of_def valid_val_def)

lemma own_get_extend:
  assumes "length h \<le> length H" "\<forall>b<length h. H ! b = h ! b" "valid_val (length h) v"
  shows "own_get H v k = own_get h v k"
proof (cases v)
  case (VRef a)
  then have "a < length h" using assms(3) by (simp add: valid_val_def)
  then have "obj_at H a = obj_at h a" using assms(1,2) by (simp add: obj_at_def)
  then show ?thesis using VRef by (simp add: own_get_def own_props_def split: option.splits)
qed (simp_all add: own_get_def own_props_def split: option.splits)

lemma proto_of_extend:
  assumes "length h \<le> length H" "\<forall>b<length h. H ! b = h ! b" "valid_val (length h) v"
  shows "proto_of H v = proto_of h v"
proof (cases v)
  case (VRef a)
  then have "a < length h" using assms(3) by (simp add: valid_val_def)
  then have "obj_at H a = obj_at h a" using assms(1,2) by (simp add: obj_at_def)
  then show ?thesis using VRef by (simp add: proto_of_def)
qed (simp_all add: proto_of_def)

lemma typeof_extend:
  assumes "length h \<le> length H" "\<forall>b<length h. H ! b = h ! b" "valid_val (length h) v"
  shows "typeof H v = typeof h v"
proof (cases v)
  case (VRef a)
  then have "a < length h" using assms(3) by (simp add: valid_val_def)
  then have "obj_at H a = obj_at h a" using assms(1,2) by (simp add: obj_at_def)
  then show ?thesis using VRef by simp
qed simp_all

lemma chain_extend:
  assumes wf: "wf_heap h" and ext: "length h \<le> length H" "\<forall>b<length h. H ! b = h ! b"
    and v: "valid_val (length h) v"
  shows "prototype_chain H v = prototype_chain h v"
proof -
  let ?p = "proto_of h v"
  have pv: "valid_val (length h) ?p" using proto_of_valid [OF wf v] .
  have fin: "length (protos (Suc (length h)) h ?p) < Suc (length h)"
  proof (cases ?p)
    case (VRef a)
    then have "a < length h" using pv by (simp add: valid_val_def)
    then have "length (protos (Suc (length h)) h (VRef a)) \<le> length h"
      using wf unfolding wf_heap_def list_all_iff by simp
    then show ?thesis using VRef by simp
  qed simp_all
  have "protos (Suc (length H)) H ?p = protos (Suc (length H)) h ?p"
    using protos_extend [OF wf ext pv] .
  also have "\<dots> = protos (Suc (length h)) h ?p"
    using protos_fuel [OF fin, of "Suc (length H)"] ext(1) by simp
  finally show ?thesis
    using proto_of_extend [OF ext v] by (simp add: prototype_chain_def)
qed

lemma read_extend:
  assumes wf: "wf_heap h" and ext: "length h \<le> length H" "\<forall>b<length h. H ! b = h ! b"
    and v: "valid_val (length h) v"
  shows "read H v k = read h v k"
proof -
  have ch: "prototype_chain H v = prototype_chain h v" using chain_extend [OF wf ext v] .
  have own: "own_get H (VRef a) k = own_get h (VRef a) k" if "a \<in> set (prototype_chain h v)" for a
  proof -
    have "a < length h" using that unfolding prototype_chain_def by (rule protos_bound)
    then show ?thesis using own_get_extend [OF ext] by (simp add: valid_val_def)
  qed
  have "List.find (\<lambda>a. own_get H (VRef a) k \<noteq> None) (prototype_chain h v)
      = List.find (\<lambda>a. own_get h (VRef a) k \<noteq> None) (prototype_chain h v)"
    by (rule find_cong) (simp_all add: own)
  moreover have "List.find (\<lambda>a. own_get h (VRef a) k \<noteq> None) (prototype_chain h v) = Some a
      \<Longrightarrow> own_get H (VRef a) k = own_get h (VRef a) k" for a
    using own by (auto simp add: find_Some_iff)
  ultimately have inh: "inherited H v k = inherited h v k"
    using ch by (auto simp add: inherited_def split: option.splits)
  have o: "own_get H v k = own_get h v k" using own_get_extend [OF ext v] .
  have pe: "proto_of H v = proto_of h v" using proto_of_extend [OF ext v] .
  show ?thesis by (simp only: read_def has_proto_accessor_def o inh ch pe)
qed

lemma own_get_valid:
  assumes "wf_heap h" "own_get h v k = Some x"
  shows "valid_val (length h) x"
proof (cases v)
  case (VRef a)
  show ?thesis
  proof (cases "a < length h")
    case True
    show ?thesis
    proof (cases "map_of (props (h ! a)) k")
      case None
      then show ?thesis using assms(2) VRef True
        by (auto simp add: own_get_def own_props_def obj_at_def valid_val_def
            split: okind.splits if_splits)
    next
      case (Some y)
      then have "x = y" using assms(2) VRef True
        by (simp add: own_get_def own_props_def obj_at_def)
      then show ?thesis using wf_obj(2) [OF assms(1) True Some] by simp
    qed
  next
    case False
    then show ?thesis using assms(2) VRef by (simp add: own_get_def own_props_def obj_at_def)
  qed
next
  case (VStr s)
  have "map_of (map (\<lambda>i. (digits i, VStr [s ! i])) l) k = Some y \<Longrightarrow> \<exists>c. y = VStr c" for l y
    by (induction l) (auto split: if_splits)
  then have "(\<exists>c. x = VStr c) \<or> (\<exists>n. x = VNum n)" using assms(2) VStr
    by (auto simp add: own_get_def own_props_def split: option.splits if_splits)
  then show ?thesis by (auto simp add: valid_val_def)
qed (use assms(2) in \<open>simp_all add: own_get_def own_props_def\<close>)

lemma read_valid:
  assumes "wf_heap h" "valid_val (length h) v"
  shows "valid_val (length h) (read h v k)"
proof (cases "own_get h v k")
  case (Some x)
  then show ?thesis using own_get_valid [OF assms(1) Some] by (simp add: read_def)
next
  case None
  show ?thesis
  proof (cases "inherited h v k")
    case (Some x)
    then obtain a where "own_get h (VRef a) k = Some x"
      by (auto simp add: inherited_def split: option.splits)
    then show ?thesis using own_get_valid [OF assms(1)] None Some by (simp add: read_def)
  next
    case inh: None
    show ?thesis using None inh proto_of_valid [OF assms]
      by (simp add: read_def valid_val_def)
  qed
qed

lemma getValue_loop_extend:
  assumes wf: "wf_heap h" and ext: "length h \<le> length H" "\<forall>b<length h. H ! b = h ! b"
  shows "valid_val (length h) r \<Longrightarrow> getValue_loop H r p = getValue_loop h r p"
proof (induction p arbitrary: r)
  case Nil
  show ?case by simp
next
  case (Cons k t)
  have "read H r (key_of k) = read h r (key_of k)" using read_extend [OF wf ext Cons.prems] .
  moreover have "getValue_loop H (read h r (key_of k)) t = getValue_loop h (read h r (key_of k)) t"
    using Cons.IH read_valid [OF wf Cons.prems] by blast
  ultimately show ?case by (simp add: get_prop_def)
qed

subsection \<open>Writing an ordinary object\<close>

lemma length_put: "length (put h a k x) = length h"
  by (simp add: put_def)

lemma put_other: "b \<noteq> a \<Longrightarrow> put h a k x ! b = h ! b"
  by (simp add: put_def)

lemma put_append:
  "a < length h \<Longrightarrow> put (h @ ext) a k x = put h a k x @ ext"
  by (simp add: put_def list_update_append nth_append)

lemma put_same:
  "a < length h \<Longrightarrow> map_of (props (h ! a)) k = Some x \<Longrightarrow> put h a k x = h"
  by (simp add: put_def update_triv list_update_same_conv)

lemma take_put: "n \<le> a \<Longrightarrow> take n (put H a k x) = take n H"
  by (simp add: put_def)

lemma read_hit:
  "a < length H \<Longrightarrow> map_of (props (H ! a)) k = Some x \<Longrightarrow> read H (VRef a) k = x"
  by (simp add: read_def own_get_def own_props_def obj_at_def)

lemma set_object_keys: "set (object_keys h v) = fst ` set (own_props h v)"
  by (auto simp add: object_keys_def Let_def)

lemma assignValue_ordinary:
  assumes "a < length h" "kind (h ! a) = OrdinaryObject"
  shows "assignValue h (VRef a) k x = Inr (put h a k x)"
proof (cases "own_get h (VRef a) k \<noteq> None \<and> read h (VRef a) k = x")
  case True
  then obtain y where y: "own_get h (VRef a) k = Some y" by blast
  then have "y = x" using True own_get_read by blast
  then have "map_of (props (h ! a)) k = Some x"
    using y assms by (simp add: own_get_def own_props_def obj_at_def split: option.splits)
  then have "put h a k x = h" using put_same [OF assms(1)] by simp
  then show ?thesis using True y by (simp add: assignValue_def has_property_def)
next
  case False
  have "assign h (VRef a) k x = Inr (put h a k x)"
    using assms by (simp add: assign_def write_prop_def put_def)
  then show ?thesis using False by (auto simp add: assignValue_def Let_def)
qed

lemma lset_put:
  assumes "ordinary_seg k" "a < length h" "kind (h ! a) = OrdinaryObject"
  shows "lset h (VRef a) k x = Inr (put h a (key_of k) x)"
  using lset_ordinary [OF assms(1)] assignValue_ordinary [OF assms(2,3)] by simp

lemma read_miss:
  assumes wf: "wf_heap h" and pr: "plain_realm h"
    and ext: "length h \<le> length H" "\<forall>b<length h. H ! b = h ! b"
    and a: "a < length H" "kind (H ! a) = OrdinaryObject"
      "proto (H ! a) = VRef object_prototype" "map_of (props (H ! a)) k = None"
    and k: "k \<noteq> ''__proto__''"
  shows "\<not> truthy (read H (VRef a) k) \<or> typeof H (read H (VRef a) k) \<noteq> TObject"
proof -
  have z: "object_prototype < length h" using wf_realm(1) [OF wf] .
  then have zH: "object_prototype < length H" "H ! object_prototype = h ! object_prototype"
    using ext by simp_all
  from pr z have ob: "kind (h ! object_prototype) = OrdinaryObject"
    "proto (h ! object_prototype) = VNull"
    and vals: "list_all (\<lambda>(k, x). \<not> (truthy x \<and> typeof h x = TObject)) (props (h ! object_prototype))"
    by (simp_all add: plain_realm_def obj_at_def)
  have own: "own_get H (VRef a) k = None"
    using a by (simp add: own_get_def own_props_def obj_at_def)
  have chain: "prototype_chain H (VRef a) = [object_prototype]"
    using a(1,3) zH ob(2) by (simp add: prototype_chain_def proto_of_def obj_at_def protos_null)
  have own0: "own_get H (VRef object_prototype) k = map_of (props (h ! object_prototype)) k"
    using zH ob(1) by (simp add: own_get_def own_props_def obj_at_def split: option.splits)
  show ?thesis
  proof (cases "map_of (props (h ! object_prototype)) k")
    case None
    then have "read H (VRef a) k = VUndefined"
      using own chain own0 k by (simp add: read_def inherited_def)
    then show ?thesis by simp
  next
    case (Some x)
    then have rd: "read H (VRef a) k = x"
      using own chain own0 by (simp add: read_def inherited_def)
    have "(k, x) \<in> set (props (h ! object_prototype))" using Some by (rule map_of_SomeD)
    then have nx: "\<not> (truthy x \<and> typeof h x = TObject)"
      using vals unfolding list_all_iff by fastforce
    have "valid_val (length h) x" using wf_obj(2) [OF wf z Some] .
    then have "typeof H x = typeof h x" using typeof_extend [OF ext] by blast
    then show ?thesis using rd nx by simp
  qed
qed

subsection \<open>Several paths, none extending another\<close>

lemma descend:
  assumes wf: "wf_heap h" and pr: "plain_realm h"
    and ext: "length h \<le> length H" "\<forall>b<length h. H ! b = h ! b"
    and inv: "trie_inv n0 val H N K"
    and node: "N u = Some a"
    and q: "q \<noteq> []" "list_all ordinary_seg q"
    and free: "\<forall>w\<in>K. (prefix w (u @ map key_of q) \<or> prefix (u @ map key_of q) w)
                 \<longrightarrow> w = u @ map key_of q"
    and v: "u @ map key_of q \<in> K \<longrightarrow> v = val (u @ map key_of q)"
  shows "(u @ map key_of q \<in> K \<and> setValue_rec H (VRef a) q v = Inr (H, VRef a))
     \<or> (u @ map key_of q \<notin> K
         \<and> (\<exists>j a1. j < length q
               \<and> N (u @ take j (map key_of q)) = Some a1
               \<and> N (u @ take (Suc j) (map key_of q)) = None
               \<and> setValue_rec H (VRef a) q v
                   = Inr (put H a1 (key_of (q ! j))
                            (if Suc j = length q then v else VRef (length H))
                          @ nested_singletons (length H) (drop (Suc j) q) v, VRef a)))"
  using node q free v
proof (induction q arbitrary: u a)
  case Nil
  then show ?case by simp
next
  case (Cons k t)
  let ?W = "u @ map key_of (k # t)"
  let ?uk = "u @ [key_of k]"
  have W: "?W = ?uk @ map key_of t" by simp
  from inv Cons.prems(1) have
    a: "n0 \<le> a" "a < length H" "kind (H ! a) = OrdinaryObject"
      "proto (H ! a) = VRef object_prototype"
    and slot: "map_of (props (H ! a)) (key_of k) =
         (if ?uk \<in> K then Some (val ?uk) else map_option VRef (N ?uk))"
    unfolding trie_inv_def by blast+
  from inv have injN: "inj_on N (dom N)" and domN: "dom N = insert [] {u. \<exists>w\<in>K. strict_prefix u w}"
    unfolding trie_inv_def by blast+
  have ty: "truthy (VRef a)" "typeof H (VRef a) = TObject"
    using a by (simp_all add: obj_at_def)
  have ord: "ordinary_seg k" "list_all ordinary_seg t" using Cons.prems(3) by simp_all
  note obj = setValue_rec_object [OF ty, of k t v]
  note ls = lset_put [OF ord(1) a(2) a(3)]
  show ?case
  proof (cases "?uk \<in> K")
    case True
    then have "?uk = ?W" using Cons.prems(4) W by (metis prefixI)
    then have t: "t = []" by simp
    then have vv: "v = val ?uk" using Cons.prems(5) True by simp
    have sl: "map_of (props (H ! a)) (key_of k) = Some v" using slot True vv by simp
    have "put H a (key_of k) v = H" using put_same [OF a(2) sl] .
    then have "setValue_rec H (VRef a) (k # t) v = Inr (H, VRef a)"
      using obj t ls [of v] by (simp del: setValue_rec.simps(2))
    then show ?thesis using True t by simp
  next
    case notK: False
    show ?thesis
    proof (cases "N ?uk")
      case None
      let ?x = "read H (VRef a) (key_of k)"
      let ?r = "if t = [] then v else VRef (length H)"
      let ?H1 = "H @ nested_singletons (length H) t v"
      have miss: "map_of (props (H ! a)) (key_of k) = None" using slot notK None by simp
      have kp: "key_of k \<noteq> ''__proto__''"
        using ordinary_key_safe [OF ord(1)] by (auto simp add: unsafe_key_def)
      have fresh: "\<not> truthy ?x \<or> typeof H ?x \<noteq> TObject"
        using read_miss [OF wf pr ext a(2) a(3) a(4) miss kp] .
      have rec: "setValue_rec H ?x t v = Inr (?H1, ?r)"
        using setValue_rec_fresh [OF fresh, of t v] .
      have a1: "a < length ?H1" "kind (?H1 ! a) = OrdinaryObject"
        using a(2,3) by (simp_all add: nth_append)
      have "lset ?H1 (VRef a) k ?r = Inr (put ?H1 a (key_of k) ?r)"
        using lset_put [OF ord(1) a1] .
      also have "put ?H1 a (key_of k) ?r = put H a (key_of k) ?r @ nested_singletons (length H) t v"
        using put_append [OF a(2)] .
      finally have wr: "lset ?H1 (VRef a) k ?r
          = Inr (put H a (key_of k) ?r @ nested_singletons (length H) t v)" .
      have res: "setValue_rec H (VRef a) (k # t) v
          = Inr (put H a (key_of k) ?r @ nested_singletons (length H) t v, VRef a)"
        using obj rec wr by (simp del: setValue_rec.simps)
      have WnotK: "?W \<notin> K"
      proof
        assume in_K: "?W \<in> K"
        show False
        proof (cases "t = []")
          case True
          then show ?thesis using in_K notK by simp
        next
          case False
          then have "strict_prefix ?uk ?W" by (simp add: strict_prefix_def)
          then have "?uk \<in> dom N" using in_K domN by blast
          then show ?thesis using None by blast
        qed
      qed
      have "0 < length (k # t) \<and> N (u @ take 0 (map key_of (k # t))) = Some a
          \<and> N (u @ take (Suc 0) (map key_of (k # t))) = None
          \<and> setValue_rec H (VRef a) (k # t) v
              = Inr (put H a (key_of ((k # t) ! 0))
                       (if Suc 0 = length (k # t) then v else VRef (length H))
                     @ nested_singletons (length H) (drop (Suc 0) (k # t)) v, VRef a)"
        using Cons.prems(1) None res by simp
      then show ?thesis using WnotK by blast
    next
      case (Some b)
      have sl: "map_of (props (H ! a)) (key_of k) = Some (VRef b)" using slot notK Some by simp
      have rd: "read H (VRef a) (key_of k) = VRef b" using read_hit [OF a(2) sl] .
      have uk_dom: "?uk \<in> dom N" using Some by blast
      then obtain w where w: "w \<in> K" "strict_prefix ?uk w" using domN by auto
      have t_ne: "t \<noteq> []"
      proof
        assume "t = []"
        then have "prefix ?W w" using w(2) by (simp add: strict_prefix_def)
        then have "w = ?W" using Cons.prems(4) w(1) by blast
        then show False using w(2) \<open>t = []\<close> by simp
      qed
      have free': "\<forall>w\<in>K. (prefix w (?uk @ map key_of t) \<or> prefix (?uk @ map key_of t) w)
                 \<longrightarrow> w = ?uk @ map key_of t"
        using Cons.prems(4) by simp
      have v': "?uk @ map key_of t \<in> K \<longrightarrow> v = val (?uk @ map key_of t)"
        using Cons.prems(5) by simp
      note IH = Cons.IH [OF Some t_ne ord(2) free' v']
      from IH show ?thesis
      proof
        assume same: "?uk @ map key_of t \<in> K \<and> setValue_rec H (VRef b) t v = Inr (H, VRef b)"
        have "put H a (key_of k) (VRef b) = H" using put_same [OF a(2) sl] .
        then have "setValue_rec H (VRef a) (k # t) v = Inr (H, VRef a)"
          using obj rd same ls [of "VRef b"] by (simp del: setValue_rec.simps)
        then show ?thesis using same by simp
      next
        assume "?uk @ map key_of t \<notin> K
         \<and> (\<exists>j a1. j < length t
               \<and> N (?uk @ take j (map key_of t)) = Some a1
               \<and> N (?uk @ take (Suc j) (map key_of t)) = None
               \<and> setValue_rec H (VRef b) t v
                   = Inr (put H a1 (key_of (t ! j))
                            (if Suc j = length t then v else VRef (length H))
                          @ nested_singletons (length H) (drop (Suc j) t) v, VRef b))"
        then obtain j a1 where WnotK: "?uk @ map key_of t \<notin> K" and j: "j < length t"
          and n1: "N (?uk @ take j (map key_of t)) = Some a1"
          and n2: "N (?uk @ take (Suc j) (map key_of t)) = None"
          and rec: "setValue_rec H (VRef b) t v
                   = Inr (put H a1 (key_of (t ! j))
                            (if Suc j = length t then v else VRef (length H))
                          @ nested_singletons (length H) (drop (Suc j) t) v, VRef b)"
          by blast
        let ?H1 = "put H a1 (key_of (t ! j)) (if Suc j = length t then v else VRef (length H))
                        @ nested_singletons (length H) (drop (Suc j) t) v"
        have "u \<noteq> ?uk @ take j (map key_of t)" by simp
        then have neq: "a \<noteq> a1"
          using injN n1 Cons.prems(1) by (metis domI inj_onD option.inject)
        have a_len: "a < length ?H1" using a(2) by (simp add: length_put)
        have at_a: "?H1 ! a = H ! a" using a(2) neq by (simp add: nth_append length_put put_other)
        have k1: "kind (?H1 ! a) = OrdinaryObject" using at_a a(3) by simp
        have sl1: "map_of (props (?H1 ! a)) (key_of k) = Some (VRef b)" using at_a sl by simp
        have "put ?H1 a (key_of k) (VRef b) = ?H1" using put_same [OF a_len sl1] .
        then have wr: "lset ?H1 (VRef a) k (VRef b) = Inr ?H1"
          using lset_put [OF ord(1) a_len k1, of "VRef b"] by simp
        have res: "setValue_rec H (VRef a) (k # t) v = Inr (?H1, VRef a)"
          using obj rd rec wr by (simp del: setValue_rec.simps)
        have "Suc j < length (k # t)
          \<and> N (u @ take (Suc j) (map key_of (k # t))) = Some a1
          \<and> N (u @ take (Suc (Suc j)) (map key_of (k # t))) = None
          \<and> setValue_rec H (VRef a) (k # t) v
              = Inr (put H a1 (key_of ((k # t) ! Suc j))
                       (if Suc (Suc j) = length (k # t) then v else VRef (length H))
                     @ nested_singletons (length H) (drop (Suc (Suc j)) (k # t)) v, VRef a)"
          using j n1 n2 res by simp
        then show ?thesis using WnotK by (metis W)
      qed
    qed
  qed
qed

lemma nth_nested_singletons:
  "i < length p \<Longrightarrow>
   nested_singletons a p v ! i
     = \<lparr>kind = OrdinaryObject,
        props = [(key_of (p ! i), if Suc i = length p then v else VRef (Suc (a + i)))],
        proto = VRef object_prototype\<rparr>"
proof (induction p arbitrary: a i)
  case Nil
  then show ?case by simp
next
  case (Cons k t)
  show ?case
  proof (cases i)
    case 0
    then show ?thesis by auto
  next
    case (Suc i')
    then show ?thesis using Cons.IH [of i' "Suc a"] Cons.prems by simp
  qed
qed

lemma trie_dom_closed:
  assumes "trie_inv n0 val H N K" "u \<in> dom N" "prefix u' u"
  shows "u' \<in> dom N"
proof -
  from assms(1) have domN: "dom N = insert [] {u. \<exists>w\<in>K. strict_prefix u w}"
    unfolding trie_inv_def by blast
  show ?thesis
  proof (cases "u = []")
    case True
    then show ?thesis using assms(3) domN by simp
  next
    case False
    then obtain w where "w \<in> K" "strict_prefix u w" using assms(2) domN by auto
    then have "strict_prefix u' w" using assms(3) prefix_order.le_less_trans by blast
    then show ?thesis using \<open>w \<in> K\<close> domN by blast
  qed
qed

lemma trie_insert_inv:
  assumes inv: "trie_inv n0 val H N K"
    and W: "W = A @ kj # B"
    and q: "map key_of qb = B"
    and nA: "N A = Some a1" and nP: "N (A @ [kj]) = None"
    and free: "\<forall>w\<in>K. (prefix w W \<or> prefix W w) \<longrightarrow> w = W" and WK: "W \<notin> K"
    and v: "v = val W"
  shows "trie_inv n0 val
           (put H a1 kj (if qb = [] then v else VRef (length H))
              @ nested_singletons (length H) qb v)
           (\<lambda>u'. if prefix (A @ [kj]) u' \<and> strict_prefix u' W
                 then Some (length H + (length u' - Suc (length A))) else N u')
           (insert W K)"
    (is "trie_inv n0 val ?H' ?N' ?K'")
proof -
  let ?P0 = "A @ [kj]"
  let ?r = "if qb = [] then v else VRef (length H)"
  from inv have N0: "N [] = Some n0"
    and nodes: "\<And>u a. N u = Some a \<Longrightarrow>
            n0 \<le> a \<and> a < length H
            \<and> kind (H ! a) = OrdinaryObject \<and> proto (H ! a) = VRef object_prototype
            \<and> (\<forall>k. map_of (props (H ! a)) k =
                  (if u @ [k] \<in> K then Some (val (u @ [k]))
                   else map_option VRef (N (u @ [k]))))"
    and injN: "inj_on N (dom N)"
    and domN: "dom N = insert [] {u. \<exists>w\<in>K. strict_prefix u w}"
    and pfree: "\<forall>w\<in>K. \<forall>w'\<in>K. prefix w w' \<longrightarrow> w = w'"
    and nilK: "[] \<notin> K"
    unfolding trie_inv_def by blast+
  have a1: "n0 \<le> a1" "a1 < length H" using nodes [OF nA] by simp_all
  have lenB: "length qb = length B" using q by auto
  have P0W: "prefix ?P0 W" using W by simp
  have above: "u' \<notin> dom N" if "prefix ?P0 u'" for u'
    using trie_dom_closed [OF inv _ that] nP by blast
  have new_form: "\<exists>i<length B. u' = ?P0 @ take i B \<and> length u' - Suc (length A) = i"
    if "prefix ?P0 u'" "strict_prefix u' W" for u'
  proof -
    from that(1) obtain B1 where B1: "u' = ?P0 @ B1" by (auto simp add: prefix_def)
    then have "strict_prefix B1 B" using that(2) W by (simp add: strict_prefix_def)
    then have "B1 = take (length B1) B \<and> length B1 < length B"
      by (metis append_eq_conv_conj prefix_length_less strict_prefixE')
    then show ?thesis using B1 by auto
  qed
  have old: "?N' u' = N u'" if "u' \<in> dom N" for u'
    using that above by auto
  have notin_K: "u' @ [k] \<notin> K" if "prefix ?P0 u'" for u' k
  proof
    assume inK: "u' @ [k] \<in> K"
    have "strict_prefix u' (u' @ [k])" by (simp add: strict_prefix_def)
    then have "u' \<in> dom N" using domN inK by blast
    then show False using above that by blast
  qed
  have P0_notin_K: "?P0 \<notin> K"
  proof
    assume "?P0 \<in> K"
    then have "?P0 = W" using free P0W by blast
    then show False using WK \<open>?P0 \<in> K\<close> by simp
  qed
  have snoc_cases: "u' = A" if "prefix ?P0 (u' @ [k])" "u' \<in> dom N" for u' k
  proof -
    from that(1) have "?P0 = u' @ [k] \<or> prefix ?P0 u'" by (simp add: prefix_snoc)
    then show ?thesis using above that(2) by auto
  qed

  have c1: "?N' [] = Some n0" using N0 by simp

  have c5: "\<forall>w\<in>?K'. \<forall>w'\<in>?K'. prefix w w' \<longrightarrow> w = w'"
    using pfree free by blast

  have c6: "[] \<notin> ?K'" using nilK W by simp

  have c4: "dom ?N' = insert [] {u. \<exists>w\<in>?K'. strict_prefix u w}"
  proof (rule set_eqI)
    fix u'
    show "u' \<in> dom ?N' \<longleftrightarrow> u' \<in> insert [] {u. \<exists>w\<in>?K'. strict_prefix u w}"
    proof (cases "prefix ?P0 u' \<and> strict_prefix u' W")
      case True
      then show ?thesis by auto
    next
      case False
      then have eq: "(u' \<in> dom ?N') = (u' \<in> dom N)" by (auto simp add: dom_def)
      show ?thesis
      proof (cases "strict_prefix u' W")
        case sp: True
        then have "\<not> prefix ?P0 u'" using False by blast
        moreover have "prefix u' W" using sp by (simp add: strict_prefix_def)
        ultimately have "prefix u' A"
          using W by (metis prefix_snoc prefix_same_cases P0W)
        then have "u' \<in> dom N" using trie_dom_closed [OF inv] nA by blast
        then show ?thesis using eq sp by auto
      next
        case nsp: False
        then show ?thesis using eq domN by auto
      qed
    qed
  qed

  have c3: "inj_on ?N' (dom ?N')"
  proof (rule inj_onI)
    fix x y assume x: "x \<in> dom ?N'" and y: "y \<in> dom ?N'" and e: "?N' x = ?N' y"
    show "x = y"
    proof (cases "prefix ?P0 x \<and> strict_prefix x W")
      case nx: True
      then obtain i where i: "i < length B" "x = ?P0 @ take i B" "length x - Suc (length A) = i"
        using new_form by blast
      show ?thesis
      proof (cases "prefix ?P0 y \<and> strict_prefix y W")
        case ny: True
        then obtain i' where i': "i' < length B" "y = ?P0 @ take i' B"
          "length y - Suc (length A) = i'"
          using new_form by blast
        from e nx ny i(3) i'(3) have "i = i'" by simp
        then show ?thesis using i(2) i'(2) by simp
      next
        case oy: False
        then have "y \<in> dom N" using y by (auto simp add: dom_def split: if_splits)
        then obtain b where b: "N y = Some b" by blast
        then have "b < length H" using nodes by blast
        then show ?thesis using e nx oy b by auto
      qed
    next
      case ox: False
      then have xd: "x \<in> dom N" using x by (auto simp add: dom_def split: if_splits)
      then obtain b where b: "N x = Some b" by blast
      then have bl: "b < length H" using nodes by blast
      show ?thesis
      proof (cases "prefix ?P0 y \<and> strict_prefix y W")
        case ny: True
        then show ?thesis using e ox b bl by auto
      next
        case oy: False
        then have yd: "y \<in> dom N" using y by (auto simp add: dom_def split: if_splits)
        have "N x = N y" using e ox oy by simp
        then show ?thesis using injN xd yd by (meson inj_onD)
      qed
    qed
  qed

  have c2: "n0 \<le> a' \<and> a' < length ?H'
            \<and> kind (?H' ! a') = OrdinaryObject \<and> proto (?H' ! a') = VRef object_prototype
            \<and> (\<forall>k. map_of (props (?H' ! a')) k =
                  (if u' @ [k] \<in> ?K' then Some (val (u' @ [k]))
                   else map_option VRef (?N' (u' @ [k]))))"
    if n': "?N' u' = Some a'" for u' a'
  proof (cases "prefix ?P0 u' \<and> strict_prefix u' W")
    case new: True
    then obtain i where i: "i < length B" "u' = ?P0 @ take i B" "length u' - Suc (length A) = i"
      using new_form by blast
    have a': "a' = length H + i" using n' new i(3) by simp
    have iq: "i < length qb" using i(1) lenB by simp
    have obj: "?H' ! a' = \<lparr>kind = OrdinaryObject,
        props = [(B ! i, if Suc i = length B then v else VRef (Suc (length H + i)))],
        proto = VRef object_prototype\<rparr>"
    proof -
      have "?H' ! a' = nested_singletons (length H) qb v ! i"
        using a' by (simp add: nth_append length_put)
      moreover have "key_of (qb ! i) = B ! i" using q iq by (metis nth_map)
      ultimately show ?thesis
        using nth_nested_singletons [OF iq, of "length H" v] lenB by simp
    qed
    have len: "a' < length ?H'"
      using a' iq by (simp add: length_put length_nested_singletons)
    have slot: "map_of (props (?H' ! a')) k =
                  (if u' @ [k] \<in> ?K' then Some (val (u' @ [k]))
                   else map_option VRef (?N' (u' @ [k])))" for k
    proof -
      have pk: "prefix ?P0 (u' @ [k])" using new by (simp add: prefix_snoc)
      have nK: "u' @ [k] \<notin> K" using notin_K new by blast
      have nN: "N (u' @ [k]) = None" using above [OF pk] by blast
      have take_snoc: "u' @ [B ! i] = ?P0 @ take (Suc i) B"
        using i(1,2) by (simp add: take_Suc_conv_app_nth)
      show ?thesis
      proof (cases "k = B ! i")
        case k: True
        show ?thesis
        proof (cases "Suc i = length B")
          case last: True
          then have "u' @ [k] = W" using take_snoc k W by simp
          then show ?thesis using obj k last v by simp
        next
          case more: False
          then have lt: "Suc i < length B" using i(1) by simp
          have ne: "u' @ [k] \<noteq> W" using take_snoc k W lt by simp
          have sp: "strict_prefix (u' @ [k]) W"
            using take_snoc k W lt
            by (metis append.assoc append_Cons append_Nil append_take_drop_id ne prefixI
                strict_prefixI)
          have "length (u' @ [k]) - Suc (length A) = Suc i" using i(2,1) by simp
          then have "?N' (u' @ [k]) = Some (length H + Suc i)" using pk sp by simp
          then show ?thesis using obj k more ne nK by simp
        qed
      next
        case k: False
        have neW: "u' @ [k] \<noteq> W"
        proof
          assume "u' @ [k] = W"
          then have "?P0 @ take i B @ [k] = ?P0 @ B" using i(2) W by simp
          then have "take i B @ [k] = B" by simp
          then have "k = B ! i" using i(1) by (metis length_take min.absorb2 less_imp_le nth_append_length)
          then show False using k by simp
        qed
        have nsp: "\<not> strict_prefix (u' @ [k]) W"
        proof
          assume "strict_prefix (u' @ [k]) W"
          then have "prefix (?P0 @ take i B @ [k]) (?P0 @ B)" using i(2) W by (simp add: strict_prefix_def)
          then have "prefix (take i B @ [k]) B" by simp
          then have "k = B ! i" using i(1)
            by (metis length_take min.absorb2 less_imp_le nth_append_length prefix_def nth_append
                length_append_singleton lessI)
          then show False using k by simp
        qed
        show ?thesis using obj k neW nsp nK nN by simp
      qed
    qed
    show ?thesis using a' a1 len obj slot by simp
  next
    case oldc: False
    then have nu: "N u' = Some a'" using n' by (simp split: if_splits)
    then have ud: "u' \<in> dom N" by blast
    note inv_u = nodes [OF nu]
    have al: "a' < length H" using inv_u by simp
    have len: "a' < length ?H'" using al by (simp add: length_put)
    have same_K: "(u' @ [k] \<in> ?K') = (u' @ [k] \<in> K)" if "u' \<noteq> A \<or> k \<noteq> kj" for k
    proof -
      have "u' @ [k] \<noteq> W"
      proof
        assume e: "u' @ [k] = W"
        then have "prefix ?P0 (u' @ [k])" using P0W by simp
        then have ua: "u' = A" using snoc_cases ud by blast
        then have "k = kj" using e W
          by (metis append_eq_append_conv2 append_Cons append_Nil list.inject same_append_eq
              Nil_is_append_conv not_Cons_self2)
        then show False using that ua by blast
      qed
      then show ?thesis by simp
    qed
    have same_N: "?N' (u' @ [k]) = N (u' @ [k])" if "u' \<noteq> A \<or> k \<noteq> kj" for k
    proof (cases "prefix ?P0 (u' @ [k])")
      case True
      then have ua: "u' = A" using snoc_cases ud by blast
      then have "k = kj" using True
        by (metis above append1_eq_conv prefix_snoc ud)
      then show ?thesis using that ua by blast
    next
      case False
      then show ?thesis by (auto simp add: prefix_snoc)
    qed
    show ?thesis
    proof (cases "a' = a1")
      case ne: False
      then have uA: "u' \<noteq> A" using nu nA by auto
      have at: "?H' ! a' = H ! a'" using al ne by (simp add: nth_append length_put put_other)
      show ?thesis using inv_u len at same_K same_N uA by simp
    next
      case eq: True
      then have uA: "u' = A" using injN nu nA ud by (metis domI inj_onD)
      have at: "?H' ! a' = (H ! a1)\<lparr>props := AList.update kj ?r (props (H ! a1))\<rparr>"
        using al eq by (simp add: nth_append length_put put_def)
      have slot: "map_of (props (?H' ! a')) k =
                  (if u' @ [k] \<in> ?K' then Some (val (u' @ [k]))
                   else map_option VRef (?N' (u' @ [k])))" for k
      proof (cases "k = kj")
        case k: False
        then show ?thesis using inv_u at eq same_K [of k] same_N [of k]
          by (simp add: update_conv')
      next
        case k: True
        show ?thesis
        proof (cases "qb = []")
          case True
          then have "W = u' @ [k]" using W q uA k by simp
          then show ?thesis using at k True v by (simp add: update_conv')
        next
          case False
          then have Bne: "B \<noteq> []" using q by auto
          have ne: "u' @ [k] \<noteq> W" using W uA k Bne by simp
          then have sp: "strict_prefix (u' @ [k]) W" using P0W uA k by (simp add: strict_prefix_def)
          have "?N' (u' @ [k]) = Some (length H)" using sp uA k by simp
          then show ?thesis using at k False ne P0_notin_K uA by (simp add: update_conv')
        qed
      qed
      show ?thesis using inv_u len at eq slot by simp
    qed
  qed

  show ?thesis
    unfolding trie_inv_def
    using c1 c2 c3 c4 c5 c6 by blast
qed

lemma getValue_loop_keys:
  "map key_of p = map key_of p' \<Longrightarrow> getValue_loop h r p = getValue_loop h r p'"
proof (induction p arbitrary: p' r)
  case Nil
  then show ?case by simp
next
  case (Cons k t)
  then obtain k' t' where p': "p' = k' # t'" "key_of k = key_of k'" "map key_of t = map key_of t'"
    by (cases p') auto
  show ?case using Cons.IH [OF p'(3)] p'(1,2) by (simp split: sum.splits)
qed

lemma trie_initial:
  "trie_inv (length h) val (h @ [emptyObject]) (\<lambda>u. if u = [] then Some (length h) else None) {}"
  unfolding trie_inv_def
  by (auto simp add: emptyObject_def inj_on_def dom_def)

lemma trie_lookup:
  assumes inv: "trie_inv n0 val H N K"
  shows "N u = Some a \<Longrightarrow> rest \<noteq> [] \<Longrightarrow> u @ rest \<in> K \<Longrightarrow>
     getValue_loop H (VRef a) (map SStr rest) = Inr (val (u @ rest))"
proof (induction rest arbitrary: u a)
  case Nil
  then show ?case by simp
next
  case (Cons k t)
  from inv Cons.prems(1) have a: "a < length H"
    and slot: "map_of (props (H ! a)) k =
         (if u @ [k] \<in> K then Some (val (u @ [k])) else map_option VRef (N (u @ [k])))"
    unfolding trie_inv_def by blast+
  from inv have domN: "dom N = insert [] {u. \<exists>w\<in>K. strict_prefix u w}"
    and pfree: "\<forall>w\<in>K. \<forall>w'\<in>K. prefix w w' \<longrightarrow> w = w'"
    unfolding trie_inv_def by blast+
  show ?case
  proof (cases "t = []")
    case True
    then have "map_of (props (H ! a)) k = Some (val (u @ [k]))"
      using slot Cons.prems(3) by simp
    then have "read H (VRef a) k = val (u @ [k])" using read_hit [OF a] by blast
    then show ?thesis using True by (simp add: get_prop_def)
  next
    case False
    have notK: "u @ [k] \<notin> K"
    proof
      assume "u @ [k] \<in> K"
      moreover have "prefix (u @ [k]) (u @ k # t)" by simp
      ultimately have "u @ [k] = u @ k # t" using pfree Cons.prems(3) by blast
      then show False using False by simp
    qed
    have "strict_prefix (u @ [k]) (u @ k # t)" using False by (simp add: strict_prefix_def)
    then have "u @ [k] \<in> dom N" using domN Cons.prems(3) by blast
    then obtain b where b: "N (u @ [k]) = Some b" by blast
    have "map_of (props (H ! a)) k = Some (VRef b)" using slot notK b by simp
    then have rd: "read H (VRef a) k = VRef b" using read_hit [OF a] by blast
    have "getValue_loop H (VRef b) (map SStr t) = Inr (val ((u @ [k]) @ t))"
      using Cons.IH [OF b False] Cons.prems(3) by simp
    then show ?thesis using rd by (simp add: get_prop_def)
  qed
qed

lemma trie_nothing_else:
  assumes inv: "trie_inv n0 val H N K"
  shows "N u = Some a \<Longrightarrow> rest \<noteq> [] \<Longrightarrow> has_path H (VRef a) rest \<Longrightarrow>
     \<exists>w\<in>K. prefix (u @ rest) w \<or> prefix w (u @ rest)"
proof (induction rest arbitrary: u a)
  case Nil
  then show ?case by simp
next
  case (Cons k t)
  from inv Cons.prems(1) have a: "a < length H"
    and slot: "map_of (props (H ! a)) k =
         (if u @ [k] \<in> K then Some (val (u @ [k])) else map_option VRef (N (u @ [k])))"
    unfolding trie_inv_def by blast+
  from inv have domN: "dom N = insert [] {u. \<exists>w\<in>K. strict_prefix u w}"
    unfolding trie_inv_def by blast
  have "k \<in> fst ` set (props (H ! a))"
    using Cons.prems(3) a by (simp add: set_object_keys own_props_def obj_at_def)
  then have present: "map_of (props (H ! a)) k \<noteq> None" by (simp add: map_of_eq_None_iff)
  show ?case
  proof (cases "u @ [k] \<in> K")
    case True
    moreover have "prefix (u @ [k]) (u @ k # t)" by simp
    ultimately show ?thesis by blast
  next
    case False
    then obtain b where b: "N (u @ [k]) = Some b" using slot present by auto
    show ?thesis
    proof (cases "t = []")
      case True
      have "u @ [k] \<in> dom N" using b by blast
      then obtain w where "w \<in> K" "strict_prefix (u @ [k]) w" using domN by auto
      then show ?thesis using True by (auto simp add: strict_prefix_def)
    next
      case nonempty: False
      have "map_of (props (H ! a)) k = Some (VRef b)" using slot False b by simp
      then have rd: "read H (VRef a) k = VRef b" using read_hit [OF a] by blast
      have "has_path H (VRef b) t" using Cons.prems(3) rd by simp
      from Cons.IH [OF b nonempty this] show ?thesis by simp
    qed
  qed
qed

lemma trie_node_valid:
  "trie_inv n0 val H N K \<Longrightarrow> N u = Some a \<Longrightarrow> n0 \<le> a \<and> a < length H"
  unfolding trie_inv_def by blast

lemma forEach_namePath_trie:
  assumes wf: "wf_heap h" "valid_val (length h) store" and pr: "plain_realm h"
    and val: "val = (\<lambda>w. case getValue_loop h store (map SStr w) of Inr x \<Rightarrow> x | Inl e \<Rightarrow> VUndefined)"
  shows "trie_inv (length h) val H N K \<Longrightarrow> take (length h) H = h \<Longrightarrow>
     \<forall>p\<in>set ps. p \<noteq> [] \<and> list_all ordinary_seg p \<Longrightarrow>
     \<forall>p\<in>set ps. \<forall>w\<in>K \<union> map key_of ` set ps.
        (prefix w (map key_of p) \<or> prefix (map key_of p) w) \<longrightarrow> w = map key_of p \<Longrightarrow>
     \<exists>H' N'. forEach_namePath H store (VRef (length h)) ps = Inr (H', VRef (length h))
        \<and> trie_inv (length h) val H' N' (K \<union> map key_of ` set ps)
        \<and> take (length h) H' = h"
proof (induction ps arbitrary: H N K)
  case Nil
  then show ?case by auto
next
  case (Cons p rest)
  let ?n0 = "length h"
  let ?W = "map key_of p"
  let ?v = "val ?W"
  have p: "p \<noteq> []" "list_all ordinary_seg p" using Cons.prems(3) by simp_all
  have ext: "length h \<le> length H" "\<forall>b<length h. H ! b = h ! b"
    using take_facts [OF Cons.prems(2) refl] by blast+
  have "getValue_loop h store p = getValue_loop h store (map SStr ?W)"
    by (rule getValue_loop_keys) (simp add: comp_def)
  moreover obtain x where "getValue_loop h store (map SStr ?W) = Inr x"
    using getValue_loop_total by blast
  ultimately have "getValue_loop h store p = Inr ?v" using val by simp
  moreover have "getValue_loop H store p = getValue_loop h store p"
    using getValue_loop_extend [OF wf(1) ext wf(2)] .
  ultimately have gv: "getValue H store (Items p) = Inr ?v"
    by (simp add: getValue_def)
  have root: "N [] = Some ?n0" using Cons.prems(1) unfolding trie_inv_def by blast
  have free: "\<forall>w\<in>K. (prefix w ([] @ ?W) \<or> prefix ([] @ ?W) w) \<longrightarrow> w = [] @ ?W"
    using Cons.prems(4) by simp
  have rest_ok: "\<forall>p\<in>set rest. p \<noteq> [] \<and> list_all ordinary_seg p" using Cons.prems(3) by simp
  note d = descend [OF wf(1) pr ext Cons.prems(1) root p free, of ?v, unfolded append_Nil]
  have step: "\<exists>H1 N1. setValue_rec H (VRef ?n0) p ?v = Inr (H1, VRef ?n0)
      \<and> trie_inv ?n0 val H1 N1 (insert ?W K) \<and> take ?n0 H1 = h"
  proof (cases "?W \<in> K")
    case True
    then have "setValue_rec H (VRef ?n0) p ?v = Inr (H, VRef ?n0)" using d by blast
    moreover have "insert ?W K = K" using True by auto
    ultimately show ?thesis using Cons.prems(1,2) by auto
  next
    case False
    then obtain j a1 where j: "j < length p"
      and nA: "N (take j ?W) = Some a1" and nP: "N (take (Suc j) ?W) = None"
      and res: "setValue_rec H (VRef ?n0) p ?v
           = Inr (put H a1 (key_of (p ! j)) (if Suc j = length p then ?v else VRef (length H))
                  @ nested_singletons (length H) (drop (Suc j) p) ?v, VRef ?n0)"
      using d by blast
    let ?A = "take j ?W" and ?kj = "?W ! j" and ?B = "drop (Suc j) ?W"
    let ?qb = "drop (Suc j) p"
    have jW: "j < length ?W" using j by simp
    have W: "?W = ?A @ ?kj # ?B" using jW by (rule id_take_nth_drop)
    have q: "map key_of ?qb = ?B" by (simp add: drop_map)
    have nP': "N (?A @ [?kj]) = None" using nP jW by (simp add: take_Suc_conv_app_nth)
    have free': "\<forall>w\<in>K. (prefix w ?W \<or> prefix ?W w) \<longrightarrow> w = ?W" using free by simp
    note ins = trie_insert_inv [OF Cons.prems(1) W q nA nP' free' False refl]
    have qb: "(?qb = []) = (Suc j = length p)" using j by auto
    have kj: "?kj = key_of (p ! j)" using j by simp
    let ?H1 = "put H a1 ?kj (if ?qb = [] then ?v else VRef (length H))
                @ nested_singletons (length H) ?qb ?v"
    have res': "setValue_rec H (VRef ?n0) p ?v = Inr (?H1, VRef ?n0)"
      using res by (simp only: kj qb)
    have a1: "?n0 \<le> a1" "a1 < length H"
      using Cons.prems(1) nA unfolding trie_inv_def by blast+
    have "?n0 \<le> length H" using a1 by simp
    then have tk: "take ?n0 ?H1 = h"
      using Cons.prems(2) a1 by (simp add: take_put length_put)
    show ?thesis by (intro exI conjI) (rule res', rule ins, rule tk)
  qed
  then obtain H1 N1 where s1: "setValue_rec H (VRef ?n0) p ?v = Inr (H1, VRef ?n0)"
    and i1: "trie_inv ?n0 val H1 N1 (insert ?W K)" and t1: "take ?n0 H1 = h"
    by blast
  have free_rest: "\<forall>q\<in>set rest. \<forall>w\<in>insert ?W K \<union> map key_of ` set rest.
        (prefix w (map key_of q) \<or> prefix (map key_of q) w) \<longrightarrow> w = map key_of q"
  proof (intro ballI impI)
    fix q w
    assume q: "q \<in> set rest" and w: "w \<in> insert ?W K \<union> map key_of ` set rest"
      and c: "prefix w (map key_of q) \<or> prefix (map key_of q) w"
    have q': "q \<in> set (p # rest)" using q by simp
    have w': "w \<in> K \<union> map key_of ` set (p # rest)" using w by auto
    show "w = map key_of q" using Cons.prems(4) q' w' c by blast
  qed
  from Cons.IH [OF i1 t1 rest_ok free_rest] obtain H' N' where
    r: "forEach_namePath H1 store (VRef ?n0) rest = Inr (H', VRef ?n0)"
    "trie_inv ?n0 val H' N' (insert ?W K \<union> map key_of ` set rest)" "take ?n0 H' = h"
    by blast
  have fe: "forEach_namePath H store (VRef ?n0) (p # rest) = Inr (H', VRef ?n0)"
    using gv s1 r(1) by (simp add: setValue_def del: setValue_rec.simps)
  have eqK: "insert ?W K \<union> map key_of ` set rest = K \<union> map key_of ` set (p # rest)"
    by auto
  have "trie_inv ?n0 val H' N' (K \<union> map key_of ` set (p # rest))"
    using r(2) unfolding eqK .
  then show ?case using fe r(3) by blast
qed

lemma cloneByNamePathList_prefix_free:
  assumes wf: "wf_heap h" "valid_val (length h) store" and pr: "plain_realm h"
    and ps: "\<forall>p\<in>set ps. p \<noteq> [] \<and> list_all ordinary_seg p"
    and free: "\<forall>p\<in>set ps. \<forall>p'\<in>set ps.
        prefix (map key_of p) (map key_of p') \<longrightarrow> map key_of p = map key_of p'"
  shows "\<exists>g. cloneByNamePathList h store ps = Inr (g, VRef (length h))
     \<and> take (length h) g = h \<and> length h < length g
     \<and> (\<forall>p\<in>set ps. getValue g (VRef (length h)) (Items p) = getValue h store (Items p))
     \<and> (\<forall>w. w \<noteq> [] \<and> has_path g (VRef (length h)) w \<longrightarrow>
           (\<exists>p\<in>set ps. prefix w (map key_of p) \<or> prefix (map key_of p) w))"
proof -
  define val where
    "val = (\<lambda>w. case getValue_loop h store (map SStr w) of Inr x \<Rightarrow> x | Inl e \<Rightarrow> VUndefined)"
  let ?n0 = "length h"
  have i0: "trie_inv ?n0 val (h @ [emptyObject]) (\<lambda>u. if u = [] then Some ?n0 else None) {}"
    by (rule trie_initial)
  have t0: "take ?n0 (h @ [emptyObject]) = h" by simp
  have free0: "\<forall>p\<in>set ps. \<forall>w\<in>{} \<union> map key_of ` set ps.
        (prefix w (map key_of p) \<or> prefix (map key_of p) w) \<longrightarrow> w = map key_of p"
  proof (intro ballI impI)
    fix p w
    assume p: "p \<in> set ps" and w: "w \<in> {} \<union> map key_of ` set ps"
      and c: "prefix w (map key_of p) \<or> prefix (map key_of p) w"
    from w obtain p' where p': "p' \<in> set ps" "w = map key_of p'" by auto
    show "w = map key_of p" using free p p' c by metis
  qed
  from forEach_namePath_trie [OF wf pr val_def i0 t0 ps free0] obtain g N where
    run: "forEach_namePath (h @ [emptyObject]) store (VRef ?n0) ps = Inr (g, VRef ?n0)"
    and inv: "trie_inv ?n0 val g N ({} \<union> map key_of ` set ps)" and tk: "take ?n0 g = h"
    by blast
  have clone: "cloneByNamePathList h store ps = Inr (g, VRef ?n0)"
    using run by (simp add: cloneByNamePathList_def alloc_def)
  have root: "N [] = Some ?n0" using inv unfolding trie_inv_def by blast
  have len: "?n0 < length g" using trie_node_valid [OF inv root] by simp
  have reads: "getValue g (VRef ?n0) (Items p) = getValue h store (Items p)" if "p \<in> set ps" for p
  proof -
    have pne: "p \<noteq> []" using ps that by blast
    have inK: "[] @ map key_of p \<in> {} \<union> map key_of ` set ps" using that by simp
    have "getValue_loop g (VRef ?n0) (map SStr (map key_of p)) = Inr (val ([] @ map key_of p))"
      using trie_lookup [OF inv root _ inK] pne by simp
    moreover have "getValue_loop g (VRef ?n0) p
        = getValue_loop g (VRef ?n0) (map SStr (map key_of p))"
      by (rule getValue_loop_keys) (simp add: comp_def)
    moreover have "getValue_loop h store p = getValue_loop h store (map SStr (map key_of p))"
      by (rule getValue_loop_keys) (simp add: comp_def)
    moreover obtain x where "getValue_loop h store (map SStr (map key_of p)) = Inr x"
      using getValue_loop_total by blast
    ultimately show ?thesis by (simp add: getValue_def val_def)
  qed
  have no_more: "\<exists>p\<in>set ps. prefix w (map key_of p) \<or> prefix (map key_of p) w"
    if "w \<noteq> []" "has_path g (VRef ?n0) w" for w
    using trie_nothing_else [OF inv root that] by simp
  show ?thesis
  proof (intro exI conjI)
    show "cloneByNamePathList h store ps = Inr (g, VRef ?n0)" by (rule clone)
    show "take ?n0 g = h" by (rule tk)
    show "?n0 < length g" by (rule len)
    show "\<forall>p\<in>set ps. getValue g (VRef ?n0) (Items p) = getValue h store (Items p)"
      using reads by blast
    show "\<forall>w. w \<noteq> [] \<and> has_path g (VRef ?n0) w \<longrightarrow>
           (\<exists>p\<in>set ps. prefix w (map key_of p) \<or> prefix (map key_of p) w)"
    proof (intro allI impI)
      fix w
      assume w: "w \<noteq> [] \<and> has_path g (VRef ?n0) w"
      then have "w \<noteq> []" "has_path g (VRef ?n0) w" by simp_all
      then show "\<exists>p\<in>set ps. prefix w (map key_of p) \<or> prefix (map key_of p) w"
        by (rule no_more)
    qed
  qed
qed

lemma put_singleton:
  "put ((h @ [emptyObject]) @ rest) (length h) k r
     = h @ \<lparr>kind = OrdinaryObject, props = [(k, r)], proto = VRef object_prototype\<rparr> # rest"
  by (simp add: put_def emptyObject_def list_update_append nth_append)

lemma cloneByNamePathList_single:
  assumes wf: "wf_heap h" "valid_val (length h) store" and pr: "plain_realm h"
    and p: "p \<noteq> []" "ordinary_seg (hd p)"
    and v: "getValue h store (Items p) = Inr v"
  shows "cloneByNamePathList h store [p]
     = Inr (h @ nested_singletons (length h) p v, VRef (length h))"
proof -
  obtain k t where kt: "p = k # t" using p(1) by (cases p) auto
  let ?h0 = "h @ [emptyObject]"
  let ?r = "if t = [] then v else VRef (Suc (length h))"
  let ?H1 = "?h0 @ nested_singletons (Suc (length h)) t v"
  have ext: "length h \<le> length ?h0" "\<forall>b<length h. ?h0 ! b = h ! b"
    by (simp_all add: nth_append)
  have g: "getValue ?h0 store (Items p) = Inr v"
    using getValue_loop_extend [OF wf(1) ext wf(2), of p] v by (simp add: getValue_def)
  have node: "length h < length ?h0" "kind (?h0 ! length h) = OrdinaryObject"
    "proto (?h0 ! length h) = VRef object_prototype"
    "map_of (props (?h0 ! length h)) (key_of k) = None"
    by (simp_all add: emptyObject_def)
  have ty: "truthy (VRef (length h))" "typeof ?h0 (VRef (length h)) = TObject"
    by (simp_all add: obj_at_def emptyObject_def)
  have ord: "ordinary_seg k" using p(2) kt by simp
  have kp: "key_of k \<noteq> ''__proto__''"
    using ordinary_key_safe [OF ord] by (auto simp add: unsafe_key_def)
  let ?x = "read ?h0 (VRef (length h)) (key_of k)"
  have fresh: "\<not> truthy ?x \<or> typeof ?h0 ?x \<noteq> TObject"
    using read_miss [OF wf(1) pr ext node kp] .
  have rec: "setValue_rec ?h0 ?x t v = Inr (?H1, ?r)"
    using setValue_rec_fresh [OF fresh, of t v] by simp
  have n1: "length h < length ?H1" "kind (?H1 ! length h) = OrdinaryObject"
    by (simp_all add: nth_append emptyObject_def)
  have wr: "lset ?H1 (VRef (length h)) k ?r
      = Inr (h @ \<lparr>kind = OrdinaryObject, props = [(key_of k, ?r)],
                   proto = VRef object_prototype\<rparr> # nested_singletons (Suc (length h)) t v)"
    using lset_put [OF ord n1, of ?r] put_singleton [of h "nested_singletons (Suc (length h)) t v"]
    by simp
  have "setValue_rec ?h0 (VRef (length h)) (k # t) v
     = Inr (h @ nested_singletons (length h) (k # t) v, VRef (length h))"
    using setValue_rec_object [OF ty, of k t v] rec wr by (simp del: setValue_rec.simps)
  then show ?thesis using g kt
    by (simp add: cloneByNamePathList_def alloc_def setValue_def del: setValue_rec.simps)
qed

text \<open>
  Claim C5 (amended). Take a well-formed heap in which \<^verbatim>\<open>Object.prototype\<close> holds
  functions and primitives only, and a list of paths in which no path is empty, every
  string segment is free of \<^verbatim>\<open>.\<close> and \<^verbatim>\<open>[\<close> (and is not \<^verbatim>\<open>__proto__\<close>, \<^verbatim>\<open>constructor\<close> or
  \<^verbatim>\<open>prototype\<close>), every numeric segment is an integer below \<open>2^53\<close> in absolute value, and
  no listed path extends a different listed path. Then \<^verbatim>\<open>cloneByNamePathList\<close> returns a
  newly allocated object, the objects that existed before are untouched, the new store
  holds at every listed path the value the source store holds there, and every key path of
  the new store is a prefix or an extension of a listed path: nothing else was copied. For
  a single non-empty path whose first segment is of that kind, the result consists of one
  new object per segment, each with the single key of its segment, the last one holding the
  value read from the store. For the store \<^verbatim>\<open>{a:1,b:{c:2,d:3}}\<close> and the paths
  \<^verbatim>\<open>[['b','c']]\<close> the result is \<^verbatim>\<open>{b:{c:2}}\<close>.
\<close>

theorem cloneByNamePathList_spec:
  "(wf_heap h \<and> plain_realm h \<and> valid_val (length h) store
        \<and> list_all (\<lambda>q. q \<noteq> [] \<and> list_all ordinary_seg q) ps
        \<and> list_all (\<lambda>q. list_all (\<lambda>q'. prefix (map key_of q) (map key_of q')
                                      \<longrightarrow> map key_of q = map key_of q') ps) ps
        \<longrightarrow> (\<exists>g. cloneByNamePathList h store ps = Inr (g, VRef (length h))
              \<and> take (length h) g = h \<and> length h < length g
              \<and> (\<forall>q\<in>set ps. getValue g (VRef (length h)) (Items q) = getValue h store (Items q))
              \<and> (\<forall>w. w \<noteq> [] \<and> has_path g (VRef (length h)) w \<longrightarrow>
                    (\<exists>q\<in>set ps. prefix w (map key_of q) \<or> prefix (map key_of q) w))))
   \<and> (wf_heap h \<and> plain_realm h \<and> valid_val (length h) store
        \<and> p \<noteq> [] \<and> ordinary_seg (hd p) \<and> getValue h store (Items p) = Inr v
        \<longrightarrow> cloneByNamePathList h store [p]
              = Inr (h @ nested_singletons (length h) p v, VRef (length h)))
   \<and> cloneByNamePathList
        (example_realm @
        [\<lparr>kind = OrdinaryObject, props = [(''a'', VNum 1), (''b'', VRef 8)], proto = VRef 0\<rparr>,
         \<lparr>kind = OrdinaryObject, props = [(''c'', VNum 2), (''d'', VNum 3)], proto = VRef 0\<rparr>])
        (VRef 7) [[SStr ''b'', SStr ''c'']]
      = Inr (example_realm @
        [\<lparr>kind = OrdinaryObject, props = [(''a'', VNum 1), (''b'', VRef 8)], proto = VRef 0\<rparr>,
         \<lparr>kind = OrdinaryObject, props = [(''c'', VNum 2), (''d'', VNum 3)], proto = VRef 0\<rparr>,
         \<lparr>kind = OrdinaryObject, props = [(''b'', VRef 10)], proto = VRef 0\<rparr>,
         \<lparr>kind = OrdinaryObject, props = [(''c'', VNum 2)], proto = VRef 0\<rparr>], VRef 9)"
proof -
  have c: "wf_heap h \<and> plain_realm h \<and> valid_val (length h) store
        \<and> list_all (\<lambda>q. q \<noteq> [] \<and> list_all ordinary_seg q) ps
        \<and> list_all (\<lambda>q. list_all (\<lambda>q'. prefix (map key_of q) (map key_of q')
                                      \<longrightarrow> map key_of q = map key_of q') ps) ps
        \<longrightarrow> (\<exists>g. cloneByNamePathList h store ps = Inr (g, VRef (length h))
              \<and> take (length h) g = h \<and> length h < length g
              \<and> (\<forall>q\<in>set ps. getValue g (VRef (length h)) (Items q) = getValue h store (Items q))
              \<and> (\<forall>w. w \<noteq> [] \<and> has_path g (VRef (length h)) w \<longrightarrow>
                    (\<exists>q\<in>set ps. prefix w (map key_of q) \<or> prefix (map key_of q) w)))"
  proof (intro impI)
    assume hyp: "wf_heap h \<and> plain_realm h \<and> valid_val (length h) store
        \<and> list_all (\<lambda>q. q \<noteq> [] \<and> list_all ordinary_seg q) ps
        \<and> list_all (\<lambda>q. list_all (\<lambda>q'. prefix (map key_of q) (map key_of q')
                                      \<longrightarrow> map key_of q = map key_of q') ps) ps"
    then have wf: "wf_heap h" "valid_val (length h) store" and pr: "plain_realm h"
      by simp_all
    from hyp have ne: "\<forall>q\<in>set ps. q \<noteq> [] \<and> list_all ordinary_seg q"
      by (simp add: list_all_iff)
    from hyp have fr: "\<forall>q\<in>set ps. \<forall>q'\<in>set ps.
        prefix (map key_of q) (map key_of q') \<longrightarrow> map key_of q = map key_of q'"
      by (simp add: list_all_iff)
    show "\<exists>g. cloneByNamePathList h store ps = Inr (g, VRef (length h))
              \<and> take (length h) g = h \<and> length h < length g
              \<and> (\<forall>q\<in>set ps. getValue g (VRef (length h)) (Items q) = getValue h store (Items q))
              \<and> (\<forall>w. w \<noteq> [] \<and> has_path g (VRef (length h)) w \<longrightarrow>
                    (\<exists>q\<in>set ps. prefix w (map key_of q) \<or> prefix (map key_of q) w))"
      by (rule cloneByNamePathList_prefix_free [OF wf pr ne fr])
  qed
  have d: "wf_heap h \<and> plain_realm h \<and> valid_val (length h) store
        \<and> p \<noteq> [] \<and> ordinary_seg (hd p) \<and> getValue h store (Items p) = Inr v
        \<longrightarrow> cloneByNamePathList h store [p]
              = Inr (h @ nested_singletons (length h) p v, VRef (length h))"
    using cloneByNamePathList_single [of h store p v] by blast
  have e: "cloneByNamePathList
        (example_realm @
        [\<lparr>kind = OrdinaryObject, props = [(''a'', VNum 1), (''b'', VRef 8)], proto = VRef 0\<rparr>,
         \<lparr>kind = OrdinaryObject, props = [(''c'', VNum 2), (''d'', VNum 3)], proto = VRef 0\<rparr>])
        (VRef 7) [[SStr ''b'', SStr ''c'']]
      = Inr (example_realm @
        [\<lparr>kind = OrdinaryObject, props = [(''a'', VNum 1), (''b'', VRef 8)], proto = VRef 0\<rparr>,
         \<lparr>kind = OrdinaryObject, props = [(''c'', VNum 2), (''d'', VNum 3)], proto = VRef 0\<rparr>,
         \<lparr>kind = OrdinaryObject, props = [(''b'', VRef 10)], proto = VRef 0\<rparr>,
         \<lparr>kind = OrdinaryObject, props = [(''c'', VNum 2)], proto = VRef 0\<rparr>], VRef 9)"
    by code_simp
  show ?thesis by (intro conjI) (rule c, rule d, rule e)
qed

theorem cloneByNamePathList_spec_witness:
  "wf_heap (example_realm @
        [\<lparr>kind = OrdinaryObject, props = [(''a'', VNum 1), (''b'', VRef 8)], proto = VRef 0\<rparr>,
         \<lparr>kind = OrdinaryObject, props = [(''c'', VNum 2), (''d'', VNum 3), (''e'', VNum 4)],
          proto = VRef 0\<rparr>])
   \<and> plain_realm (example_realm @
        [\<lparr>kind = OrdinaryObject, props = [(''a'', VNum 1), (''b'', VRef 8)], proto = VRef 0\<rparr>,
         \<lparr>kind = OrdinaryObject, props = [(''c'', VNum 2), (''d'', VNum 3), (''e'', VNum 4)],
          proto = VRef 0\<rparr>])
   \<and> valid_val 9 (VRef 7)
   \<and> list_all (\<lambda>q. q \<noteq> [] \<and> list_all ordinary_seg q)
        [[SStr ''b'', SStr ''c''], [SStr ''a''], [SStr ''b'', SStr ''d''], [SStr ''b'', SStr ''c'']]
   \<and> list_all (\<lambda>q. list_all (\<lambda>q'. prefix (map key_of q) (map key_of q')
                                      \<longrightarrow> map key_of q = map key_of q')
          [[SStr ''b'', SStr ''c''], [SStr ''a''], [SStr ''b'', SStr ''d''], [SStr ''b'', SStr ''c'']])
        [[SStr ''b'', SStr ''c''], [SStr ''a''], [SStr ''b'', SStr ''d''], [SStr ''b'', SStr ''c'']]
   \<and> cloneByNamePathList
        (example_realm @
        [\<lparr>kind = OrdinaryObject, props = [(''a'', VNum 1), (''b'', VRef 8)], proto = VRef 0\<rparr>,
         \<lparr>kind = OrdinaryObject, props = [(''c'', VNum 2), (''d'', VNum 3), (''e'', VNum 4)],
          proto = VRef 0\<rparr>])
        (VRef 7)
        [[SStr ''b'', SStr ''c''], [SStr ''a''], [SStr ''b'', SStr ''d''], [SStr ''b'', SStr ''c'']]
      = Inr (example_realm @
        [\<lparr>kind = OrdinaryObject, props = [(''a'', VNum 1), (''b'', VRef 8)], proto = VRef 0\<rparr>,
         \<lparr>kind = OrdinaryObject, props = [(''c'', VNum 2), (''d'', VNum 3), (''e'', VNum 4)],
          proto = VRef 0\<rparr>,
         \<lparr>kind = OrdinaryObject, props = [(''b'', VRef 10), (''a'', VNum 1)], proto = VRef 0\<rparr>,
         \<lparr>kind = OrdinaryObject, props = [(''c'', VNum 2), (''d'', VNum 3)], proto = VRef 0\<rparr>], VRef 9)
   \<and> getValue
        (example_realm @
        [\<lparr>kind = OrdinaryObject, props = [(''a'', VNum 1), (''b'', VRef 8)], proto = VRef 0\<rparr>,
         \<lparr>kind = OrdinaryObject, props = [(''c'', VNum 2), (''d'', VNum 3), (''e'', VNum 4)],
          proto = VRef 0\<rparr>,
         \<lparr>kind = OrdinaryObject, props = [(''b'', VRef 10), (''a'', VNum 1)], proto = VRef 0\<rparr>,
         \<lparr>kind = OrdinaryObject, props = [(''c'', VNum 2), (''d'', VNum 3)], proto = VRef 0\<rparr>])
        (VRef 9) (Items [SStr ''b'', SStr ''d''])
      = getValue
        (example_realm @
        [\<lparr>kind = OrdinaryObject, props = [(''a'', VNum 1), (''b'', VRef 8)], proto = VRef 0\<rparr>,
         \<lparr>kind = OrdinaryObject, props = [(''c'', VNum 2), (''d'', VNum 3), (''e'', VNum 4)],
          proto = VRef 0\<rparr>])
        (VRef 7) (Items [SStr ''b'', SStr ''d''])
   \<and> \<not> has_path
        (example_realm @
        [\<lparr>kind = OrdinaryObject, props = [(''a'', VNum 1), (''b'', VRef 8)], proto = VRef 0\<rparr>,
         \<lparr>kind = OrdinaryObject, props = [(''c'', VNum 2), (''d'', VNum 3), (''e'', VNum 4)],
          proto = VRef 0\<rparr>,
         \<lparr>kind = OrdinaryObject, props = [(''b'', VRef 10), (''a'', VNum 1)], proto = VRef 0\<rparr>,
         \<lparr>kind = OrdinaryObject, props = [(''c'', VNum 2), (''d'', VNum 3)], proto = VRef 0\<rparr>])
        (VRef 9) [''b'', ''e'']
   \<and> cloneByNamePathList
        (example_realm @
        [\<lparr>kind = OrdinaryObject, props = [(''a'', VNum 1), (''b'', VRef 8)], proto = VRef 0\<rparr>,
         \<lparr>kind = OrdinaryObject, props = [(''c'', VNum 2), (''d'', VNum 3), (''e'', VNum 4)],
          proto = VRef 0\<rparr>])
        (VRef 7) [[SStr ''a'']]
      = Inr (example_realm @
        [\<lparr>kind = OrdinaryObject, props = [(''a'', VNum 1), (''b'', VRef 8)], proto = VRef 0\<rparr>,
         \<lparr>kind = OrdinaryObject, props = [(''c'', VNum 2), (''d'', VNum 3), (''e'', VNum 4)],
          proto = VRef 0\<rparr>,
         \<lparr>kind = OrdinaryObject, props = [(''a'', VNum 1)], proto = VRef 0\<rparr>], VRef 9)"
proof -
  let ?h = "example_realm @
        [\<lparr>kind = OrdinaryObject, props = [(''a'', VNum 1), (''b'', VRef 8)], proto = VRef 0\<rparr>,
         \<lparr>kind = OrdinaryObject, props = [(''c'', VNum 2), (''d'', VNum 3), (''e'', VNum 4)],
          proto = VRef 0\<rparr>]"
  let ?ps = "[[SStr ''b'', SStr ''c''], [SStr ''a''], [SStr ''b'', SStr ''d''], [SStr ''b'', SStr ''c'']]"
  let ?g = "example_realm @
        [\<lparr>kind = OrdinaryObject, props = [(''a'', VNum 1), (''b'', VRef 8)], proto = VRef 0\<rparr>,
         \<lparr>kind = OrdinaryObject, props = [(''c'', VNum 2), (''d'', VNum 3), (''e'', VNum 4)],
          proto = VRef 0\<rparr>,
         \<lparr>kind = OrdinaryObject, props = [(''b'', VRef 10), (''a'', VNum 1)], proto = VRef 0\<rparr>,
         \<lparr>kind = OrdinaryObject, props = [(''c'', VNum 2), (''d'', VNum 3)], proto = VRef 0\<rparr>]"
  have w: "wf_heap ?h" "plain_realm ?h" by code_simp+
  have vs: "valid_val 9 (VRef 7)" by (simp add: valid_val_def)
  have len: "length ?h = 9" by (simp add: example_realm_def)
  have o: "list_all (\<lambda>q. q \<noteq> [] \<and> list_all ordinary_seg q) ?ps"
    by (simp add: unsafe_key_def)
  have f: "list_all (\<lambda>q. list_all (\<lambda>q'. prefix (map key_of q) (map key_of q')
                                      \<longrightarrow> map key_of q = map key_of q') ?ps) ?ps"
    by simp
  have c: "cloneByNamePathList ?h (VRef 7) ?ps = Inr (?g, VRef 9)"
    by code_simp
  have s: "[SStr ''a''] \<noteq> []" "ordinary_seg (hd [SStr ''a''])"
    "getValue ?h (VRef 7) (Items [SStr ''a'']) = Inr (VNum 1)"
    by (simp_all add: unsafe_key_def) code_simp
  note t = cloneByNamePathList_spec [where h = ?h and store = "VRef 7" and ps = ?ps
      and p = "[SStr ''a'']" and v = "VNum 1"]
  from t w vs o f obtain g' where g': "cloneByNamePathList ?h (VRef 7) ?ps = Inr (g', VRef 9)"
    and reads: "\<forall>q\<in>set ?ps. getValue g' (VRef 9) (Items q) = getValue ?h (VRef 7) (Items q)"
    and only: "\<forall>w. w \<noteq> [] \<and> has_path g' (VRef 9) w \<longrightarrow>
                    (\<exists>q\<in>set ?ps. prefix w (map key_of q) \<or> prefix (map key_of q) w)"
    unfolding len by blast
  have gg: "g' = ?g" using g' c by simp
  have r: "getValue ?g (VRef 9) (Items [SStr ''b'', SStr ''d''])
      = getValue ?h (VRef 7) (Items [SStr ''b'', SStr ''d''])"
    using reads unfolding gg by simp
  have n: "\<not> has_path ?g (VRef 9) [''b'', ''e'']"
    using only [unfolded gg, rule_format, of "[''b'', ''e'']"] by auto
  have one: "cloneByNamePathList ?h (VRef 7) [[SStr ''a'']]
      = Inr (?h @ nested_singletons (length ?h) [SStr ''a''] (VNum 1), VRef (length ?h))"
    using t w vs s unfolding len by blast
  have one': "cloneByNamePathList ?h (VRef 7) [[SStr ''a'']]
      = Inr (example_realm @
        [\<lparr>kind = OrdinaryObject, props = [(''a'', VNum 1), (''b'', VRef 8)], proto = VRef 0\<rparr>,
         \<lparr>kind = OrdinaryObject, props = [(''c'', VNum 2), (''d'', VNum 3), (''e'', VNum 4)],
          proto = VRef 0\<rparr>,
         \<lparr>kind = OrdinaryObject, props = [(''a'', VNum 1)], proto = VRef 0\<rparr>], VRef 9)"
    using one unfolding len by (simp add: object_prototype_def)
  show ?thesis
    by (intro conjI) (rule w(1), rule w(2), rule vs, rule o, rule f, rule c, rule r, rule n,
      rule one')
qed

text \<open>
  The claim as stated fails when a listed path extends another one: for the store
  \<^verbatim>\<open>{a: 1}\<close> and the paths \<^verbatim>\<open>['a']\<close>, \<^verbatim>\<open>['a', 'x']\<close> the result is
  \<^verbatim>\<open>{a: {x: undefined}}\<close>, which does not hold the store's value at \<^verbatim>\<open>['a']\<close>.
\<close>

theorem cloneByNamePathList_prefix_conflict:
  "cloneByNamePathList
      (example_realm @ [\<lparr>kind = OrdinaryObject, props = [(''a'', VNum 1)], proto = VRef 0\<rparr>])
      (VRef 7) [[SStr ''a''], [SStr ''a'', SStr ''x'']]
     = Inr (example_realm @
            [\<lparr>kind = OrdinaryObject, props = [(''a'', VNum 1)], proto = VRef 0\<rparr>,
             \<lparr>kind = OrdinaryObject, props = [(''a'', VRef 9)], proto = VRef 0\<rparr>,
             \<lparr>kind = OrdinaryObject, props = [(''x'', VUndefined)], proto = VRef 0\<rparr>], VRef 8)
   \<and> getValue
        (example_realm @ [\<lparr>kind = OrdinaryObject, props = [(''a'', VNum 1)], proto = VRef 0\<rparr>])
        (VRef 7) (Items [SStr ''a'']) = Inr (VNum 1)
   \<and> getValue
        (example_realm @
            [\<lparr>kind = OrdinaryObject, props = [(''a'', VNum 1)], proto = VRef 0\<rparr>,
             \<lparr>kind = OrdinaryObject, props = [(''a'', VRef 9)], proto = VRef 0\<rparr>,
             \<lparr>kind = OrdinaryObject, props = [(''x'', VUndefined)], proto = VRef 0\<rparr>])
        (VRef 8) (Items [SStr ''a'']) = Inr (VRef 9)"
  by code_simp

text \<open>
  With an empty path in the list the result is the value read at that path, here the store
  itself and not a new object.
\<close>

lemma cloneByNamePathList_empty_path:
  "cloneByNamePathList
      (example_realm @ [\<lparr>kind = OrdinaryObject, props = [(''a'', VNum 1)], proto = VRef 0\<rparr>])
      (VRef 7) [[]]
     = Inr (example_realm @
            [\<lparr>kind = OrdinaryObject, props = [(''a'', VNum 1)], proto = VRef 0\<rparr>, emptyObject],
            VRef 7)"
  by code_simp

text \<open>
  When a listed path extends another one whose value is an object, the source is written
  to: here \<^verbatim>\<open>store.a.x\<close> was 1 and becomes \<^verbatim>\<open>{y: undefined}\<close>.
\<close>

lemma cloneByNamePathList_writes_into_source:
  "cloneByNamePathList
      (example_realm @
       [\<lparr>kind = OrdinaryObject, props = [(''a'', VRef 8)], proto = VRef 0\<rparr>,
        \<lparr>kind = OrdinaryObject, props = [(''x'', VNum 1)], proto = VRef 0\<rparr>])
      (VRef 7) [[SStr ''a''], [SStr ''a'', SStr ''x'', SStr ''y'']]
     = Inr (example_realm @
            [\<lparr>kind = OrdinaryObject, props = [(''a'', VRef 8)], proto = VRef 0\<rparr>,
             \<lparr>kind = OrdinaryObject, props = [(''x'', VRef 10)], proto = VRef 0\<rparr>,
             \<lparr>kind = OrdinaryObject, props = [(''a'', VRef 8)], proto = VRef 0\<rparr>,
             \<lparr>kind = OrdinaryObject, props = [(''y'', VUndefined)], proto = VRef 0\<rparr>], VRef 9)"
  by code_simp

text \<open>
  Such a list can also make the call fail: with \<^verbatim>\<open>['a']\<close> and \<^verbatim>\<open>['a', 'length', 'x']\<close> on
  the store \<^verbatim>\<open>{a: [1, 2]}\<close>, the second path assigns an object to the \<^verbatim>\<open>length\<close> of the
  source array. JavaScript converts the object to a number before it rejects or accepts
  the length, which is where the model stops.
\<close>

lemma cloneByNamePathList_array_length:
  "cloneByNamePathList
      (example_realm @
       [\<lparr>kind = OrdinaryObject, props = [(''a'', VRef 8)], proto = VRef 0\<rparr>,
        \<lparr>kind = ArrayObject 2, props = [(''0'', VNum 1), (''1'', VNum 2)], proto = VRef 1\<rparr>])
      (VRef 7) [[SStr ''a''], [SStr ''a'', SStr ''length'', SStr ''x'']]
     = Inl NotModelled"
  by code_simp

end
